theory Spec2Isabelle
  imports Main "HOL-Library.Word"
begin

unbundle bit_operations_syntax

section \<open>The LC-3 virtual machine of \<^verbatim>\<open>src/main.c\<close>\<close>

text \<open>
  The machine state of the C program is two global arrays, \<^verbatim>\<open>memory[MEMORY_MAX]\<close> and
  \<^verbatim>\<open>reg[R_COUNT]\<close>, both of \<^verbatim>\<open>uint16_t\<close>.  A \<^verbatim>\<open>uint16_t\<close> is a \<open>16 word\<close>, a byte
  of a file or of a terminal stream is an \<open>8 word\<close>.  An index of type \<^verbatim>\<open>uint16_t\<close> can
  never leave \<^verbatim>\<open>memory\<close>, so the array is a total function on \<open>16 word\<close>; where the
  program walks a raw pointer instead (the string traps), the index is a \<open>nat\<close> and
  leaving the array is an outcome of its own.
\<close>

type_synonym u16 = "16 word"
type_synonym u8 = "8 word"

subsection \<open>Constants\<close>

definition MEMORY_MAX :: nat where "MEMORY_MAX = 2 ^ 16"

definition R_R0 :: nat where "R_R0 = 0"
definition R_R7 :: nat where "R_R7 = 7"
definition R_PC :: nat where "R_PC = 8"
definition R_COND :: nat where "R_COND = 9"
definition R_COUNT :: nat where "R_COUNT = 10"

definition FL_POS :: u16 where "FL_POS = push_bit 0 1"
definition FL_ZRO :: u16 where "FL_ZRO = push_bit 1 1"
definition FL_NEG :: u16 where "FL_NEG = push_bit 2 1"

definition OP_BR :: u16 where "OP_BR = 0"
definition OP_ADD :: u16 where "OP_ADD = 1"
definition OP_LD :: u16 where "OP_LD = 2"
definition OP_ST :: u16 where "OP_ST = 3"
definition OP_JSR :: u16 where "OP_JSR = 4"
definition OP_AND :: u16 where "OP_AND = 5"
definition OP_LDR :: u16 where "OP_LDR = 6"
definition OP_STR :: u16 where "OP_STR = 7"
definition OP_RTI :: u16 where "OP_RTI = 8"
definition OP_NOT :: u16 where "OP_NOT = 9"
definition OP_LDI :: u16 where "OP_LDI = 10"
definition OP_STI :: u16 where "OP_STI = 11"
definition OP_JMP :: u16 where "OP_JMP = 12"
definition OP_RES :: u16 where "OP_RES = 13"
definition OP_LEA :: u16 where "OP_LEA = 14"
definition OP_TRAP :: u16 where "OP_TRAP = 15"

definition TRAP_GETC :: u16 where "TRAP_GETC = 0x20"
definition TRAP_OUT :: u16 where "TRAP_OUT = 0x21"
definition TRAP_PUTS :: u16 where "TRAP_PUTS = 0x22"
definition TRAP_IN :: u16 where "TRAP_IN = 0x23"
definition TRAP_PUTSP :: u16 where "TRAP_PUTSP = 0x24"
definition TRAP_HALT :: u16 where "TRAP_HALT = 0x25"

definition MR_KBSR :: u16 where "MR_KBSR = 0xfe00"
definition MR_KBDR :: u16 where "MR_KBDR = 0xfe02"

definition PC_START :: u16 where "PC_START = 0x3000"

subsection \<open>State\<close>

text \<open>
  Besides the two arrays the program talks to its process environment: \<^verbatim>\<open>getchar\<close>
  consumes standard input, \<^verbatim>\<open>fputc\<close>, \<^verbatim>\<open>fputs\<close> and \<^verbatim>\<open>printf\<close> append to standard
  output, and \<^verbatim>\<open>check_key\<close> asks the operating system, with a zero timeout, whether
  input is pending.  The answer to that poll depends on when the bytes arrive, which the
  byte stream does not tell; the field \<open>keys\<close> holds the answers the coming polls will
  get, \<open>keys s 0\<close> being the next one.
\<close>

record vm =
  memory :: "u16 \<Rightarrow> u16"
  reg :: "nat \<Rightarrow> u16"
  keys :: "nat \<Rightarrow> bool"
  stdin :: "u8 list"
  stdout :: "u8 list"

text \<open>
  Two things the C standard leaves to the platform: whether plain \<^verbatim>\<open>char\<close> is signed
  (it decides what \<^verbatim>\<open>(uint16_t)c\<close> is in the IN trap), and what \<^verbatim>\<open>fread\<close> leaves in an
  element it could read only in part (a function of the cell's old value and the one
  byte that was there).
\<close>

record platform =
  char_signed :: bool
  partial_elem :: "u16 \<Rightarrow> u8 \<Rightarrow> u16"

text \<open>
  One pass through the loop body of \<^verbatim>\<open>main\<close> either leaves \<^verbatim>\<open>running\<close> set, clears it
  (HALT), calls \<^verbatim>\<open>abort()\<close>, or reads past the end of \<^verbatim>\<open>memory\<close> through a raw pointer.
\<close>

datatype outcome = Running vm | Halted vm | Aborted vm | OutOfBounds vm

subsection \<open>Terminal collaborators\<close>

definition check_key :: "vm \<Rightarrow> bool \<times> vm" where
  "check_key s = (keys s 0, s\<lparr>keys := (\<lambda>n. keys s (Suc n))\<rparr>)"

text \<open>\<^verbatim>\<open>getchar\<close> returns an \<^verbatim>\<open>int\<close>: the byte as an unsigned value, or \<^verbatim>\<open>EOF\<close>, which is -1.\<close>

definition getchar :: "vm \<Rightarrow> int \<times> vm" where
  "getchar s = (case stdin s of [] \<Rightarrow> (- 1, s) | b # bs \<Rightarrow> (uint b, s\<lparr>stdin := bs\<rparr>))"

definition fputc :: "u8 \<Rightarrow> vm \<Rightarrow> vm" where
  "fputc c s = s\<lparr>stdout := stdout s @ [c]\<rparr>"

definition fputs :: "string \<Rightarrow> vm \<Rightarrow> vm" where
  "fputs str s = s\<lparr>stdout := stdout s @ map (\<lambda>c. of_char c) str\<rparr>"

subsection \<open>Memory access\<close>

definition mem_read :: "u16 \<Rightarrow> vm \<Rightarrow> u16 \<times> vm" where
  "mem_read addr s =
     (let s' =
        (if addr = MR_KBSR then
           (case check_key s of
              (True, s1) \<Rightarrow>
                (let s2 = s1\<lparr>memory := (memory s1)(MR_KBSR := push_bit 15 1)\<rparr>
                 in case getchar s2 of
                      (c, s3) \<Rightarrow> s3\<lparr>memory := (memory s3)(MR_KBDR := word_of_int c)\<rparr>)
            | (False, s1) \<Rightarrow> s1\<lparr>memory := (memory s1)(MR_KBSR := 0)\<rparr>)
         else s)
      in (memory s' addr, s'))"

definition mem_write :: "u16 \<Rightarrow> u16 \<Rightarrow> vm \<Rightarrow> vm" where
  "mem_write addr val s = s\<lparr>memory := (memory s)(addr := val)\<rparr>"

subsection \<open>Helpers of the decoder\<close>

definition sign_extend :: "u16 \<Rightarrow> nat \<Rightarrow> u16" where
  "sign_extend num bit_count =
     (if (drop_bit (bit_count - 1) num) AND 0x1 \<noteq> 0
      then num OR push_bit bit_count 0xffff
      else num)"

definition update_flags :: "nat \<Rightarrow> vm \<Rightarrow> vm" where
  "update_flags r s =
     (if reg s r = 0 then s\<lparr>reg := (reg s)(R_COND := FL_ZRO)\<rparr>
      else if drop_bit 15 (reg s r) \<noteq> 0 then s\<lparr>reg := (reg s)(R_COND := FL_NEG)\<rparr>
      else s\<lparr>reg := (reg s)(R_COND := FL_POS)\<rparr>)"

definition swap16 :: "u16 \<Rightarrow> u16" where
  "swap16 x = push_bit 8 x OR drop_bit 8 x"

subsection \<open>Image loader\<close>

text \<open>
  \<^verbatim>\<open>fread(p, sizeof(uint16_t), max_read, fp)\<close> copies whole two-byte elements into
  \<^verbatim>\<open>memory\<close> from index \<open>p\<close> on, at most \<open>max_read\<close> of them, and returns how many it
  copied.  The host is little-endian (the program's own comment, "convert to little
  endian", and its \<^verbatim>\<open>swap16\<close> say so): the first byte of an element is the low one.  A
  single byte left over at the end of the stream is a partial element.
\<close>

definition host16 :: "u8 \<Rightarrow> u8 \<Rightarrow> u16" where
  "host16 b0 b1 = ucast b0 OR push_bit 8 (ucast b1)"

fun fread_into :: "platform \<Rightarrow> nat \<Rightarrow> nat \<Rightarrow> u8 list \<Rightarrow> (u16 \<Rightarrow> u16) \<Rightarrow> nat \<times> (u16 \<Rightarrow> u16)" where
  "fread_into pl p 0 bs m = (0, m)"
| "fread_into pl p (Suc k) (b0 # b1 # bs) m =
     (case fread_into pl (Suc p) k bs (m(word_of_nat p := host16 b0 b1)) of
        (n, m') \<Rightarrow> (Suc n, m'))"
| "fread_into pl p (Suc k) [b] m =
     (0, m(word_of_nat p := partial_elem pl (m (word_of_nat p)) b))"
| "fread_into pl p (Suc k) [] m = (0, m)"

text \<open>The loop \<^verbatim>\<open>while (read-- > 0) { *p = swap16(*p); ++p; }\<close>.\<close>

fun swap_loop :: "nat \<Rightarrow> nat \<Rightarrow> (u16 \<Rightarrow> u16) \<Rightarrow> (u16 \<Rightarrow> u16)" where
  "swap_loop 0 p m = m"
| "swap_loop (Suc n) p m =
     swap_loop n (Suc p) (m(word_of_nat p := swap16 (m (word_of_nat p))))"

text \<open>
  \<^verbatim>\<open>max_read\<close> is declared \<^verbatim>\<open>uint16_t\<close>: the difference \<^verbatim>\<open>MEMORY_MAX - origin\<close>, computed
  in \<^verbatim>\<open>int\<close>, is cut to 16 bits by the initialisation.  When the stream has fewer than two
  bytes the first \<^verbatim>\<open>fread\<close> leaves \<^verbatim>\<open>origin\<close> indeterminate, but it has also consumed the
  whole stream, so the second \<^verbatim>\<open>fread\<close> copies nothing and the loop does not run:
  memory stays as it was, whatever \<^verbatim>\<open>origin\<close> holds.
\<close>

definition read_image_file :: "platform \<Rightarrow> u8 list \<Rightarrow> (u16 \<Rightarrow> u16) \<Rightarrow> (u16 \<Rightarrow> u16)" where
  "read_image_file pl bs m =
     (case bs of
        b0 # b1 # rest \<Rightarrow>
          (let origin = swap16 (host16 b0 b1);
               max_read = (word_of_nat (MEMORY_MAX - unat origin) :: u16);
               p = unat origin
           in case fread_into pl p (unat max_read) rest m of
                (read, m') \<Rightarrow> swap_loop read p m')
      | _ \<Rightarrow> m)"

text \<open>A file system maps a path to the bytes of the file; \<^verbatim>\<open>fopen\<close> fails on the others.\<close>

definition read_image :: "platform \<Rightarrow> (string \<rightharpoonup> u8 list) \<Rightarrow> string \<Rightarrow> (u16 \<Rightarrow> u16) \<Rightarrow> (u16 \<Rightarrow> u16) option" where
  "read_image pl fs path m =
     (case fs path of
        None \<Rightarrow> None
      | Some bs \<Rightarrow> Some (read_image_file pl bs m))"

subsection \<open>The loader as the specification words it\<close>

text \<open>
  The specification's loader, for comparison with \<open>read_image_file\<close>: the first two
  bytes are the origin, high byte first; every following pair of bytes is one word, high
  byte first; the words go to consecutive cells from the origin on, until the words or the
  65536 cells run out.
\<close>

definition be16 :: "u8 \<Rightarrow> u8 \<Rightarrow> u16" where
  "be16 hi lo = push_bit 8 (ucast hi) OR ucast lo"

fun be_words :: "u8 list \<Rightarrow> u16 list" where
  "be_words (hi # lo # bs) = be16 hi lo # be_words bs"
| "be_words bs = []"

fun spec_store :: "nat \<Rightarrow> u16 list \<Rightarrow> (u16 \<Rightarrow> u16) \<Rightarrow> (u16 \<Rightarrow> u16)" where
  "spec_store a [] m = m"
| "spec_store a (w # ws) m =
     (if a < MEMORY_MAX then spec_store (Suc a) ws (m(word_of_nat a := w)) else m)"

definition spec_read_image_file :: "u8 list \<Rightarrow> (u16 \<Rightarrow> u16) \<Rightarrow> (u16 \<Rightarrow> u16)" where
  "spec_read_image_file bs m =
     (case bs of
        hi # lo # rest \<Rightarrow> spec_store (unat (be16 hi lo)) (be_words rest) m
      | _ \<Rightarrow> m)"

subsection \<open>The instructions\<close>

definition set_reg :: "nat \<Rightarrow> u16 \<Rightarrow> vm \<Rightarrow> vm" where
  "set_reg r v s = s\<lparr>reg := (reg s)(r := v)\<rparr>"

definition op_add :: "u16 \<Rightarrow> vm \<Rightarrow> vm" where
  "op_add instr s =
     (let dr = (drop_bit 9 instr) AND 0x7;
          sr1 = (drop_bit 6 instr) AND 0x7;
          imm_flag = (drop_bit 5 instr) AND 0x1;
          s' = (if imm_flag \<noteq> 0 then
                  (let imm5 = sign_extend (instr AND 0x1f) 5
                   in set_reg (unat dr) (reg s (unat sr1) + imm5) s)
                else
                  (let sr2 = instr AND 0x7
                   in set_reg (unat dr) (reg s (unat sr1) + reg s (unat sr2)) s))
      in update_flags (unat dr) s')"

definition op_and :: "u16 \<Rightarrow> vm \<Rightarrow> vm" where
  "op_and instr s =
     (let dr = (drop_bit 9 instr) AND 0x7;
          sr1 = (drop_bit 6 instr) AND 0x7;
          imm_flag = (drop_bit 5 instr) AND 0x1;
          s' = (if imm_flag \<noteq> 0 then
                  (let imm5 = sign_extend (instr AND 0x1f) 5
                   in set_reg (unat dr) (reg s (unat sr1) AND imm5) s)
                else
                  (let sr2 = instr AND 0x7
                   in set_reg (unat dr) (reg s (unat sr1) AND reg s (unat sr2)) s))
      in update_flags (unat dr) s')"

definition op_not :: "u16 \<Rightarrow> vm \<Rightarrow> vm" where
  "op_not instr s =
     (let dr = (drop_bit 9 instr) AND 0x7;
          sr = (drop_bit 6 instr) AND 0x7
      in update_flags (unat dr) (set_reg (unat dr) (NOT (reg s (unat sr))) s))"

definition op_br :: "u16 \<Rightarrow> vm \<Rightarrow> vm" where
  "op_br instr s =
     (let flags = (ucast ((drop_bit 9 instr) AND 0x7) :: u8);
          pc_offset = sign_extend (instr AND 0x1ff) 9
      in if ucast flags AND reg s R_COND \<noteq> 0
         then set_reg R_PC (reg s R_PC + pc_offset) s
         else s)"

definition op_jmp :: "u16 \<Rightarrow> vm \<Rightarrow> vm" where
  "op_jmp instr s = set_reg R_PC (reg s (unat ((drop_bit 6 instr) AND 0x7))) s"

definition op_jsr :: "u16 \<Rightarrow> vm \<Rightarrow> vm" where
  "op_jsr instr s =
     (let flag = (ucast ((drop_bit 11 instr) AND 0x1) :: u8);
          s1 = set_reg R_R7 (reg s R_PC) s
      in if flag \<noteq> 0
         then set_reg R_PC (reg s1 R_PC + sign_extend (instr AND 0x7ff) 11) s1
         else set_reg R_PC (reg s1 (unat ((drop_bit 6 instr) AND 0x7))) s1)"

definition op_ld :: "u16 \<Rightarrow> vm \<Rightarrow> vm" where
  "op_ld instr s =
     (let dr = (drop_bit 9 instr) AND 0x7;
          pc_offset = sign_extend (instr AND 0x1ff) 9
      in case mem_read (reg s R_PC + pc_offset) s of
           (v, s1) \<Rightarrow> update_flags (unat dr) (set_reg (unat dr) v s1))"

definition op_ldi :: "u16 \<Rightarrow> vm \<Rightarrow> vm" where
  "op_ldi instr s =
     (let dr = (drop_bit 9 instr) AND 0x7;
          pc_offset = sign_extend (instr AND 0x1ff) 9
      in case mem_read (reg s R_PC + pc_offset) s of
           (a, s1) \<Rightarrow>
             (case mem_read a s1 of
                (v, s2) \<Rightarrow> update_flags (unat dr) (set_reg (unat dr) v s2)))"

definition op_ldr :: "u16 \<Rightarrow> vm \<Rightarrow> vm" where
  "op_ldr instr s =
     (let offset = sign_extend (instr AND 0x3f) 6;
          baseR = (drop_bit 6 instr) AND 0x7;
          dr = (drop_bit 9 instr) AND 0x7
      in case mem_read (reg s (unat baseR) + offset) s of
           (v, s1) \<Rightarrow> update_flags (unat dr) (set_reg (unat dr) v s1))"

definition op_lea :: "u16 \<Rightarrow> vm \<Rightarrow> vm" where
  "op_lea instr s =
     (let offset = sign_extend (instr AND 0x1ff) 9;
          dr = (drop_bit 9 instr) AND 0x7
      in update_flags (unat dr) (set_reg (unat dr) (reg s R_PC + offset) s))"

definition op_st :: "u16 \<Rightarrow> vm \<Rightarrow> vm" where
  "op_st instr s =
     (let pc_offset = sign_extend (instr AND 0x1ff) 9;
          sr = (drop_bit 9 instr) AND 0x7
      in mem_write (reg s R_PC + pc_offset) (reg s (unat sr)) s)"

definition op_sti :: "u16 \<Rightarrow> vm \<Rightarrow> vm" where
  "op_sti instr s =
     (let pc_offset = sign_extend (instr AND 0x1ff) 9;
          sr = (drop_bit 9 instr) AND 0x7
      in case mem_read (reg s R_PC + pc_offset) s of
           (a, s1) \<Rightarrow> mem_write a (reg s1 (unat sr)) s1)"

definition op_str :: "u16 \<Rightarrow> vm \<Rightarrow> vm" where
  "op_str instr s =
     (let offset = sign_extend (instr AND 0x3f) 6;
          baseR = (drop_bit 6 instr) AND 0x7;
          sr = (drop_bit 9 instr) AND 0x7
      in mem_write (reg s (unat baseR) + offset) (reg s (unat sr)) s)"

subsection \<open>Trap service\<close>

text \<open>
  PUTS and PUTSP walk a raw pointer \<^verbatim>\<open>uint16_t *c = memory + reg[R_R0]\<close> with \<^verbatim>\<open>++c\<close>
  until \<^verbatim>\<open>*c\<close> is zero.  The pointer is not a 16-bit index: past the last cell it leaves
  the array, it does not return to cell 0.  The index is therefore a \<open>nat\<close>, and a read
  at \<open>MEMORY_MAX\<close> or beyond ends the walk with \<open>OutOfBounds\<close>.
\<close>

function puts_loop :: "nat \<Rightarrow> vm \<Rightarrow> outcome" where
  "puts_loop c s =
     (if MEMORY_MAX \<le> c then OutOfBounds s
      else if memory s (word_of_nat c) = 0 then Running s
      else puts_loop (Suc c) (fputc (ucast (memory s (word_of_nat c))) s))"
  by pat_completeness auto
termination
  by (relation "measure (\<lambda>(c, s). MEMORY_MAX - c)") auto

function putsp_loop :: "nat \<Rightarrow> vm \<Rightarrow> outcome" where
  "putsp_loop c s =
     (if MEMORY_MAX \<le> c then OutOfBounds s
      else if memory s (word_of_nat c) = 0 then Running s
      else
        (let s1 = fputc (ucast (memory s (word_of_nat c) AND 0xff)) s;
             c2 = (ucast (drop_bit 8 (memory s (word_of_nat c))) :: u8);
             s2 = (if c2 \<noteq> 0 then fputc c2 s1 else s1)
         in putsp_loop (Suc c) s2))"
  by pat_completeness auto
termination
  by (relation "measure (\<lambda>(c, s). MEMORY_MAX - c)") auto

text \<open>
  In the IN trap the character goes through a plain \<^verbatim>\<open>char\<close>: \<^verbatim>\<open>char c = getchar()\<close>
  keeps the low eight bits, and \<^verbatim>\<open>(uint16_t)c\<close> extends them with the sign where
  \<^verbatim>\<open>char\<close> is signed.
\<close>

definition char_to_u16 :: "platform \<Rightarrow> u8 \<Rightarrow> u16" where
  "char_to_u16 pl c = (if char_signed pl then scast c else ucast c)"

definition op_trap :: "platform \<Rightarrow> u16 \<Rightarrow> vm \<Rightarrow> outcome" where
  "op_trap pl instr s =
     (let s0 = set_reg R_R7 (reg s R_PC) s;
          vect = instr AND 0xff
      in if vect = TRAP_GETC then
           (case getchar s0 of
              (ch, s1) \<Rightarrow> Running (update_flags R_R0 (set_reg R_R0 (word_of_int ch) s1)))
         else if vect = TRAP_OUT then
           Running (fputc (ucast (reg s0 R_R0)) s0)
         else if vect = TRAP_PUTS then
           puts_loop (unat (reg s0 R_R0)) s0
         else if vect = TRAP_IN then
           (let s1 = fputs ''Enter a character: '' s0
            in case getchar s1 of
                 (ch, s2) \<Rightarrow>
                   (let c = (word_of_int ch :: u8);
                        s3 = set_reg R_R0 (char_to_u16 pl c) s2;
                        s4 = fputc c s3
                    in Running (update_flags R_R0 s4)))
         else if vect = TRAP_PUTSP then
           putsp_loop (unat (reg s0 R_R0)) s0
         else if vect = TRAP_HALT then
           Halted (fputs ''HALT'' s0)
         else Running s0)"

subsection \<open>The fetch-decode-execute loop\<close>

text \<open>The \<^verbatim>\<open>switch (op)\<close> of \<^verbatim>\<open>main\<close>; the state it gets has the program counter already advanced.\<close>

definition execute :: "platform \<Rightarrow> u16 \<Rightarrow> vm \<Rightarrow> outcome" where
  "execute pl instr s =
     (let op = drop_bit 12 instr
      in if op = OP_ADD then Running (op_add instr s)
         else if op = OP_AND then Running (op_and instr s)
         else if op = OP_NOT then Running (op_not instr s)
         else if op = OP_BR then Running (op_br instr s)
         else if op = OP_JMP then Running (op_jmp instr s)
         else if op = OP_JSR then Running (op_jsr instr s)
         else if op = OP_LD then Running (op_ld instr s)
         else if op = OP_LDI then Running (op_ldi instr s)
         else if op = OP_LDR then Running (op_ldr instr s)
         else if op = OP_LEA then Running (op_lea instr s)
         else if op = OP_ST then Running (op_st instr s)
         else if op = OP_STI then Running (op_sti instr s)
         else if op = OP_STR then Running (op_str instr s)
         else if op = OP_TRAP then op_trap pl instr s
         else Aborted s)"

text \<open>
  \<^verbatim>\<open>uint16_t instr = mem_read(reg[R_PC]++)\<close>: the read is at the old program counter, and
  the counter is advanced before \<^verbatim>\<open>mem_read\<close> runs.
\<close>

definition fetch :: "vm \<Rightarrow> u16 \<times> vm" where
  "fetch s = mem_read (reg s R_PC) (set_reg R_PC (reg s R_PC + 1) s)"

definition step :: "platform \<Rightarrow> vm \<Rightarrow> outcome" where
  "step pl s = (case fetch s of (instr, s1) \<Rightarrow> execute pl instr s1)"

text \<open>
  \<^verbatim>\<open>while (running)\<close> may go on for ever; \<open>run pl n s\<close> is the loop cut after at most
  \<open>n\<close> passes, \<open>Running\<close> meaning that it was still going.
\<close>

fun run :: "platform \<Rightarrow> nat \<Rightarrow> vm \<Rightarrow> outcome" where
  "run pl 0 s = Running s"
| "run pl (Suc n) s =
     (case step pl s of
        Running s' \<Rightarrow> run pl n s'
      | Halted s' \<Rightarrow> Halted s'
      | Aborted s' \<Rightarrow> Aborted s'
      | OutOfBounds s' \<Rightarrow> OutOfBounds s')"

subsection \<open>Program entry\<close>

text \<open>
  The loop \<^verbatim>\<open>for (int j = 0; j < argc; j++)\<close> over \<^verbatim>\<open>argv\<close>: the first path that cannot
  be opened ends it.
\<close>

fun load_images :: "platform \<Rightarrow> (string \<rightharpoonup> u8 list) \<Rightarrow> string list \<Rightarrow> (u16 \<Rightarrow> u16) \<Rightarrow> string + (u16 \<Rightarrow> u16)" where
  "load_images pl fs [] m = Inr m"
| "load_images pl fs (path # paths) m =
     (case read_image pl fs path m of
        None \<Rightarrow> Inl path
      | Some m' \<Rightarrow> load_images pl fs paths m')"

text \<open>
  What \<^verbatim>\<open>main\<close> does before its loop.  \<^verbatim>\<open>argv\<close> is the program's own name \<open>argv0\<close>
  followed by the positional arguments \<open>args\<close>, so \<^verbatim>\<open>argc\<close> is \<open>1 + length args\<close>.  The
  global arrays start zeroed.  \<open>Exit text code\<close> is a call of \<^verbatim>\<open>exit(code)\<close> after \<open>text\<close>
  was printed.
\<close>

datatype start = Exit string int | Started vm

definition init_vm :: "(u16 \<Rightarrow> u16) \<Rightarrow> (nat \<Rightarrow> bool) \<Rightarrow> u8 list \<Rightarrow> vm" where
  "init_vm m ks inp =
     \<lparr>memory = m,
      reg = (\<lambda>r. 0)(R_COND := FL_ZRO, R_PC := PC_START),
      keys = ks, stdin = inp, stdout = []\<rparr>"

definition main_start :: "platform \<Rightarrow> (string \<rightharpoonup> u8 list) \<Rightarrow> string \<Rightarrow> string list \<Rightarrow> (nat \<Rightarrow> bool) \<Rightarrow> u8 list \<Rightarrow> start" where
  "main_start pl fs argv0 args ks inp =
     (if 1 + length args < 2 then Exit (argv0 @ '' [image-file1] ...'' @ [CHR 0x0A]) 2
      else
        (case load_images pl fs (argv0 # args) (\<lambda>a. 0) of
           Inl path \<Rightarrow> Exit (''failed to load image: '' @ path @ [CHR 0x0A]) 1
         | Inr m \<Rightarrow> Started (init_vm m ks inp)))"

subsection \<open>Observations and sample inputs\<close>

fun state_of :: "outcome \<Rightarrow> vm" where
  "state_of (Running s) = s"
| "state_of (Halted s) = s"
| "state_of (Aborted s) = s"
| "state_of (OutOfBounds s) = s"

fun is_running :: "outcome \<Rightarrow> bool" where
  "is_running (Running s) = True"
| "is_running r = False"

fun is_halted :: "outcome \<Rightarrow> bool" where
  "is_halted (Halted s) = True"
| "is_halted r = False"

text \<open>
  Two states agree up to \<open>k\<close> polls when they have the same memory, registers, pending
  input and output, and the next \<open>k\<close> keyboard polls will get the same answers in both.
  Two outcomes are alike when they are of the same kind and their states agree.
\<close>

definition agree :: "nat \<Rightarrow> vm \<Rightarrow> vm \<Rightarrow> bool" where
  "agree k s s' \<longleftrightarrow>
     memory s = memory s' \<and> reg s = reg s' \<and> stdin s = stdin s' \<and> stdout s = stdout s' \<and>
     (\<forall>i < k. keys s i = keys s' i)"

fun alike :: "nat \<Rightarrow> outcome \<Rightarrow> outcome \<Rightarrow> bool" where
  "alike k (Running s) (Running s') = agree k s s'"
| "alike k (Halted s) (Halted s') = agree k s s'"
| "alike k (Aborted s) (Aborted s') = agree k s s'"
| "alike k (OutOfBounds s) (OutOfBounds s') = agree k s s'"
| "alike k r r' = False"

text \<open>
  The keyboard polls a run makes.  \<^verbatim>\<open>mem_read\<close> calls \<^verbatim>\<open>check_key\<close> once when its address
  is the keyboard status register and not at all otherwise.  A cycle calls \<^verbatim>\<open>mem_read\<close> for
  the fetch, and then once more in LD, LDR and STI and twice more in LDI, where the second
  address is the value the first read returned.
\<close>

definition polls_of_read :: "u16 \<Rightarrow> nat" where
  "polls_of_read addr = (if addr = MR_KBSR then 1 else 0)"

definition exec_polls :: "u16 \<Rightarrow> vm \<Rightarrow> nat" where
  "exec_polls instr s =
     (let op = drop_bit 12 instr;
          pc_addr = reg s R_PC + sign_extend (instr AND 0x1ff) 9
      in if op = OP_LD then polls_of_read pc_addr
         else if op = OP_LDI then
           polls_of_read pc_addr + polls_of_read (fst (mem_read pc_addr s))
         else if op = OP_LDR then
           polls_of_read (reg s (unat ((drop_bit 6 instr) AND 0x7)) + sign_extend (instr AND 0x3f) 6)
         else if op = OP_STI then polls_of_read pc_addr
         else 0)"

definition step_polls :: "vm \<Rightarrow> nat" where
  "step_polls s =
     (case fetch s of (instr, s1) \<Rightarrow> polls_of_read (reg s R_PC) + exec_polls instr s1)"

fun run_polls :: "platform \<Rightarrow> nat \<Rightarrow> vm \<Rightarrow> nat" where
  "run_polls pl 0 s = 0"
| "run_polls pl (Suc n) s =
     step_polls s +
     (case step pl s of
        Running s' \<Rightarrow> run_polls pl n s'
      | Halted s' \<Rightarrow> 0
      | Aborted s' \<Rightarrow> 0
      | OutOfBounds s' \<Rightarrow> 0)"

text \<open>The outcome of a run that read past the end of \<^verbatim>\<open>memory\<close>.\<close>

fun left_memory :: "outcome \<Rightarrow> bool" where
  "left_memory (OutOfBounds s) = True"
| "left_memory r = False"

text \<open>
  A little-endian host with signed \<^verbatim>\<open>char\<close>, whose \<^verbatim>\<open>fread\<close> copies the single byte of a
  partial element into the low byte of the cell.
\<close>

definition x86_host :: platform where
  "x86_host = \<lparr>char_signed = True, partial_elem = (\<lambda>old b. (old AND 0xff00) OR ucast b)\<rparr>"

text \<open>\<^verbatim>\<open>ADD R1, R0, #-1\<close> at the entry point.\<close>

definition add_image :: "u16 \<Rightarrow> u16" where
  "add_image = (\<lambda>a. 0)(0x3000 := 0x123f)"

text \<open>\<^verbatim>\<open>NOT R2, R2\<close> at the entry point.\<close>

definition not_image :: "u16 \<Rightarrow> u16" where
  "not_image = (\<lambda>a. 0)(0x3000 := 0x94bf)"

text \<open>The reserved opcode 13 at the entry point.\<close>

definition reserved_image :: "u16 \<Rightarrow> u16" where
  "reserved_image = (\<lambda>a. 0)(0x3000 := 0xd000)"

text \<open>\<^verbatim>\<open>TRAP x26\<close>, a vector that no case of the inner switch names.\<close>

definition trap_image :: "u16 \<Rightarrow> u16" where
  "trap_image = (\<lambda>a. 0)(0x3000 := 0xf026)"

text \<open>\<^verbatim>\<open>JSR\<close> to x3002, where \<^verbatim>\<open>JMP R7\<close> returns at once; \<^verbatim>\<open>HALT\<close> follows the call.\<close>

definition return_image :: "u16 \<Rightarrow> u16" where
  "return_image = (\<lambda>a. 0)(0x3000 := 0x4801, 0x3001 := 0xf025, 0x3002 := 0xc1c0)"

text \<open>The same call, but the subroutine prints a character (\<^verbatim>\<open>TRAP x21\<close>) before \<^verbatim>\<open>JMP R7\<close>.\<close>

definition clobber_image :: "u16 \<Rightarrow> u16" where
  "clobber_image =
     (\<lambda>a. 0)(0x3000 := 0x4801, 0x3001 := 0xf025, 0x3002 := 0xf021, 0x3003 := 0xc1c0)"

text \<open>\<^verbatim>\<open>LDI R0\<close> through a pointer to the keyboard status register, then \<^verbatim>\<open>HALT\<close>.\<close>

definition poll_image :: "u16 \<Rightarrow> u16" where
  "poll_image = (\<lambda>a. 0)(0x3000 := 0xa001, 0x3001 := 0xf025, 0x3002 := 0xfe00)"

text \<open>\<^verbatim>\<open>TRAP x22\<close> (PUTS) with the string "Hi" at address 0, where R0 points at start.\<close>

definition puts_image :: "u16 \<Rightarrow> u16" where
  "puts_image = (\<lambda>a. 0)(0 := 0x48, 1 := 0x69, 0x3000 := 0xf022)"

text \<open>\<^verbatim>\<open>TRAP x24\<close> (PUTSP) with "Hi!" packed two characters to a cell at address 0.\<close>

definition putsp_image :: "u16 \<Rightarrow> u16" where
  "putsp_image = (\<lambda>a. 0)(0 := 0x6948, 1 := 0x0021, 0x3000 := 0xf024)"

text \<open>
  A directory holding the interpreter's own executable \<open>vm\<close> (the first four bytes of
  an ELF file) and one image \<open>a.obj\<close> (origin x3000, a single \<^verbatim>\<open>HALT\<close>); and the same
  directory seen from elsewhere, where the name \<open>vm\<close> does not resolve.
\<close>

definition here_fs :: "string \<rightharpoonup> u8 list" where
  "here_fs = [''vm'' \<mapsto> [0x7f, 0x45, 0x4c, 0x46], ''a.obj'' \<mapsto> [0x30, 0x00, 0xf0, 0x25]]"

definition away_fs :: "string \<rightharpoonup> u8 list" where
  "away_fs = [''a.obj'' \<mapsto> [0x30, 0x00, 0xf0, 0x25]]"

text \<open>
  A directory with the executable \<open>vm\<close> and the image \<open>poll.obj\<close>: origin x3000, then
  \<^verbatim>\<open>LDI R0\<close> through the pointer at x3002, \<^verbatim>\<open>HALT\<close>, and the pointer xFE00; and the
  memory that \<open>vm poll.obj\<close> starts with there.
\<close>

definition poll_fs :: "string \<rightharpoonup> u8 list" where
  "poll_fs = [''vm'' \<mapsto> [0x7f, 0x45, 0x4c, 0x46],
              ''poll.obj'' \<mapsto> [0x30, 0x00, 0xa0, 0x01, 0xf0, 0x25, 0xfe, 0x00]]"

definition poll_loaded :: "u16 \<Rightarrow> u16" where
  "poll_loaded = (\<lambda>a. 0)(0x7f45 := 0x4c46, 0x3000 := 0xa001, 0x3001 := 0xf025, 0x3002 := 0xfe00)"

section \<open>Properties\<close>

subsection \<open>Auxiliary facts\<close>

text \<open>The equations of the two string scans are applied by hand, one pass at a time.\<close>

declare puts_loop.simps [simp del] putsp_loop.simps [simp del]

lemmas opcode_defs = OP_BR_def OP_ADD_def OP_LD_def OP_ST_def OP_JSR_def OP_AND_def OP_LDR_def
  OP_STR_def OP_RTI_def OP_NOT_def OP_LDI_def OP_STI_def OP_JMP_def OP_RES_def OP_LEA_def
  OP_TRAP_def

lemmas reg_names = R_R0_def R_R7_def R_PC_def R_COND_def

lemmas flag_defs = FL_POS_def FL_ZRO_def FL_NEG_def

lemmas trap_defs = TRAP_GETC_def TRAP_OUT_def TRAP_PUTS_def TRAP_IN_def TRAP_PUTSP_def
  TRAP_HALT_def

lemmas machine_defs = step_def fetch_def execute_def mem_read_def mem_write_def set_reg_def
  update_flags_def sign_extend_def init_vm_def check_key_def getchar_def fputc_def fputs_def
  MR_KBSR_def MR_KBDR_def PC_START_def Let_def

lemmas run_defs = machine_defs reg_names opcode_defs trap_defs op_jsr_def op_jmp_def op_trap_def
  op_ldi_def

lemma drop_bit_15_iff: "drop_bit 15 (w :: u16) \<noteq> 0 \<longleftrightarrow> bit w 15"
proof
  assume "drop_bit 15 w \<noteq> 0"
  then obtain n where "bit (drop_bit 15 w) n" by (auto simp add: bit_eq_iff)
  then have "bit w (15 + n)" by (simp add: bit_simps)
  moreover from this have "15 + n < 16" using bit_imp_le_length[of w "15 + n"] by simp
  ultimately show "bit w 15" by (cases n) auto
next
  assume "bit w 15"
  then have "bit (drop_bit 15 w) 0" by (simp add: bit_simps)
  then show "drop_bit 15 w \<noteq> 0" by auto
qed

lemma field3_less: "unat ((x :: u16) AND 0x7) < 8"
proof -
  have "unat (x AND 7) \<le> unat (7 :: u16)"
    by (rule word_and_le1 [THEN word_le_nat_alt [THEN iffD1]])
  then show ?thesis by simp
qed

lemma field3_not_special:
  "unat ((x :: u16) AND 0x7) \<noteq> R_COND" "unat ((x :: u16) AND 0x7) \<noteq> R_PC"
  using field3_less [of x] by (simp_all add: R_COND_def R_PC_def)

lemma set_reg_simps:
  "reg (set_reg r v s) = (reg s)(r := v)"
  "memory (set_reg r v s) = memory s"
  "keys (set_reg r v s) = keys s"
  "stdin (set_reg r v s) = stdin s"
  "stdout (set_reg r v s) = stdout s"
  by (simp_all add: set_reg_def)

lemma update_flags_simps:
  "memory (update_flags r s) = memory s"
  "keys (update_flags r s) = keys s"
  "stdin (update_flags r s) = stdin s"
  "stdout (update_flags r s) = stdout s"
  "x \<noteq> R_COND \<Longrightarrow> reg (update_flags r s) x = reg s x"
  by (simp_all add: update_flags_def)

lemma update_flags_cond:
  "reg (update_flags r s) R_COND =
     (if reg s r = 0 then FL_ZRO else if bit (reg s r) 15 then FL_NEG else FL_POS)"
  by (simp add: update_flags_def drop_bit_15_iff)

lemma fputc_simps:
  "memory (fputc c s) = memory s" "reg (fputc c s) = reg s" "keys (fputc c s) = keys s"
  "stdin (fputc c s) = stdin s" "stdout (fputc c s) = stdout s @ [c]"
  by (simp_all add: fputc_def)

lemma getchar_byte_u16: "(word_of_int (uint (b :: u8)) :: u16) = ucast b"
  by (rule ucast_eq [symmetric])

lemma getchar_eof_u16: "(- 1 :: u16) = 0xffff"
  by simp

lemma mem_read_reg: "reg (snd (mem_read a s)) = reg s"
  by (simp add: mem_read_def check_key_def getchar_def Let_def split: prod.splits bool.splits list.splits)

lemma mem_read_stdout: "stdout (snd (mem_read a s)) = stdout s"
  by (simp add: mem_read_def check_key_def getchar_def Let_def split: prod.splits bool.splits list.splits)

lemma mem_read_plain: "a \<noteq> MR_KBSR \<Longrightarrow> mem_read a s = (memory s a, s)"
  by (simp add: mem_read_def)

lemma mem_read_KBSR_value:
  "fst (mem_read MR_KBSR s) = (if keys s 0 then 0x8000 else 0)"
  by (simp add: mem_read_def check_key_def getchar_def Let_def MR_KBSR_def MR_KBDR_def split: prod.splits bool.splits list.splits)

lemma fetch_reg: "reg (snd (fetch s)) = (reg s)(R_PC := reg s R_PC + 1)"
  by (simp add: fetch_def mem_read_reg set_reg_simps)

lemma fetch_stdout: "stdout (snd (fetch s)) = stdout s"
  by (simp add: fetch_def mem_read_stdout set_reg_simps)

lemma fetch_reg_field:
  assumes "fetch s = (instr, s1)"
  shows "reg s1 (unat ((x :: u16) AND 0x7)) = reg s (unat (x AND 0x7))"
  using fetch_reg [of s] assms field3_not_special(2) [of x] by simp

lemma fetch_trap_quiet:
  assumes f: "fetch s = (instr, s1)" and op: "drop_bit 12 instr = OP_TRAP"
  shows "s1 = set_reg R_PC (reg s R_PC + 1) s"
proof (cases "reg s R_PC = MR_KBSR")
  case True
  with f have "instr = fst (mem_read MR_KBSR (set_reg R_PC (reg s R_PC + 1) s))"
    by (simp add: fetch_def)
  then have "instr = 0x8000 \<or> instr = 0" by (simp add: mem_read_KBSR_value)
  with op show ?thesis by (auto simp add: OP_TRAP_def)
next
  case False
  with f show ?thesis by (simp add: fetch_def mem_read_plain)
qed

lemma run_Suc_right:
  "run pl (Suc n) s =
     (case run pl n s of Running t \<Rightarrow> step pl t | Halted t \<Rightarrow> Halted t
      | Aborted t \<Rightarrow> Aborted t | OutOfBounds t \<Rightarrow> OutOfBounds t)"
proof (induction n arbitrary: s)
  case 0
  show ?case by (simp split: outcome.splits)
next
  case (Suc n)
  show ?case
  proof (cases "step pl s")
    case (Running s')
    then show ?thesis using Suc.IH [of s'] by simp
  qed simp_all
qed

subsection \<open>The image loader\<close>

text \<open>
  \<^verbatim>\<open>fread_into\<close> on a count that is not written as a successor.
\<close>

lemma fread_into_pair:
  "0 < k \<Longrightarrow> fread_into pl p k (b0 # b1 # bs) m =
     (case fread_into pl (Suc p) (k - 1) bs (m(word_of_nat p := host16 b0 b1)) of
        (n, m') \<Rightarrow> (Suc n, m'))"
  by (cases k) simp_all

lemma fread_into_single:
  "0 < k \<Longrightarrow> fread_into pl p k [b] m =
     (0, m(word_of_nat p := partial_elem pl (m (word_of_nat p)) b))"
  by (cases k) simp_all

lemma fread_into_nil: "fread_into pl p k [] m = (0, m)"
  by (cases k) simp_all

lemma fread_into_count: "fst (fread_into pl p k bs m) = min k (length bs div 2)"
proof (induction bs arbitrary: p k m rule: be_words.induct)
  case (1 hi lo bs)
  show ?case
  proof (cases k)
    case (Suc j)
    with 1 [of "Suc p" j "m(word_of_nat p := host16 hi lo)"] show ?thesis
      by (auto simp del: fun_upd_apply split: prod.splits)
  qed simp
qed (simp_all add: fread_into_nil, (case_tac k; simp))

text \<open>
  With origin 0 the difference \<^verbatim>\<open>MEMORY_MAX - origin\<close> is 65536, which the 16-bit
  \<^verbatim>\<open>max_read\<close> holds as 0: nothing is read, whatever the stream holds.
\<close>

lemma read_image_file_origin_0: "read_image_file pl (0 # 0 # rest) m = m"
  by (simp add: read_image_file_def host16_def swap16_def MEMORY_MAX_def Let_def)

text \<open>
  Claim C2.  The loader reads the first big-endian word as the origin and stores each
  following big-endian word at consecutive cells from the origin, until the stream or the
  65536 cells run out; for every origin, 0 included, it stores
  min (words in the stream, 65536 - origin) words.

  The code does not do this for origin 0.  On the stream 00 00 12 34 the specification's
  loader stores x1234 at cell 0; \<open>read_image_file\<close> stores nothing.  On the stream
  30 00 12 34 the two agree.
\<close>

theorem loader_origin_zero_stores_nothing:
  "read_image_file pl [0x00, 0x00, 0x12, 0x34] m = m \<and>
   spec_read_image_file [0x00, 0x00, 0x12, 0x34] m = m(0 := 0x1234) \<and>
   read_image_file pl [0x30, 0x00, 0x12, 0x34] m = m(0x3000 := 0x1234) \<and>
   spec_read_image_file [0x30, 0x00, 0x12, 0x34] m = m(0x3000 := 0x1234)"
proof (intro conjI)
  show "read_image_file pl [0x00, 0x00, 0x12, 0x34] m = m"
    by (rule read_image_file_origin_0)
  have o: "swap16 (host16 0x30 0x00) = 0x3000" by (simp add: swap16_def host16_def)
  have s: "swap16 (host16 0x12 0x34) = 0x1234" by (simp add: swap16_def host16_def)
  show "read_image_file pl [0x30, 0x00, 0x12, 0x34] m = m(0x3000 := 0x1234)"
    by (simp add: read_image_file_def o s MEMORY_MAX_def Let_def fread_into_pair fread_into_nil)
  show "spec_read_image_file [0x00, 0x00, 0x12, 0x34] m = m(0 := 0x1234)"
    by (simp add: spec_read_image_file_def be16_def MEMORY_MAX_def)
  show "spec_read_image_file [0x30, 0x00, 0x12, 0x34] m = m(0x3000 := 0x1234)"
    by (simp add: spec_read_image_file_def be16_def MEMORY_MAX_def)
qed

text \<open>
  For every other origin the code is the specification's loader, as long as the payload
  is whole words.  A single byte left over is a partial element of \<^verbatim>\<open>fread\<close>: it reaches
  the cell after the last word, which the specification's loader leaves alone.
\<close>

lemma swap16_host16: "swap16 (host16 b0 b1) = be16 b0 b1"
  unfolding swap16_def host16_def be16_def
  by (rule bit_word_eqI) (auto simp add: bit_simps dest: bit_imp_le_length)

lemma word_of_nat_neq:
  assumes "a < b" and "b < MEMORY_MAX"
  shows "(word_of_nat a :: u16) \<noteq> word_of_nat b"
proof
  assume "(word_of_nat a :: u16) = word_of_nat b"
  then have "unat (word_of_nat a :: u16) = unat (word_of_nat b :: u16)" by simp
  moreover have "unat (word_of_nat a :: u16) = a" "unat (word_of_nat b :: u16) = b"
    using assms by (simp_all add: unat_of_nat MEMORY_MAX_def)
  ultimately show False using assms(1) by simp
qed

lemma fread_into_below:
  assumes "a < p" and "p + k \<le> MEMORY_MAX" and "even (length bs)"
  shows "fread_into pl p k bs (m(word_of_nat a := v)) =
     (fst (fread_into pl p k bs m), (snd (fread_into pl p k bs m))(word_of_nat a := v))"
  using assms
proof (induction bs arbitrary: p k m rule: be_words.induct)
  case (1 hi lo bs)
  show ?case
  proof (cases k)
    case 0
    then show ?thesis by simp
  next
    case (Suc j)
    from 1 Suc have ne: "(word_of_nat a :: u16) \<noteq> word_of_nat p"
      by (intro word_of_nat_neq) simp_all
    have ih: "fread_into pl (Suc p) j bs ((m(word_of_nat p := host16 hi lo))(word_of_nat a := v)) =
     (fst (fread_into pl (Suc p) j bs (m(word_of_nat p := host16 hi lo))),
      (snd (fread_into pl (Suc p) j bs (m(word_of_nat p := host16 hi lo))))(word_of_nat a := v))"
      using "1.prems" Suc by (intro "1.IH") simp_all
    have tw: "(m(word_of_nat a := v))(word_of_nat p := host16 hi lo) =
      (m(word_of_nat p := host16 hi lo))(word_of_nat a := v)"
      using ne by (simp add: fun_upd_twist)
    show ?thesis
      unfolding Suc fread_into.simps tw ih by (simp split: prod.splits del: fun_upd_apply)
  qed
qed (simp_all add: fread_into_nil)

lemma loader_passes:
  assumes "p + k \<le> MEMORY_MAX" and "even (length bs)"
  shows "(case fread_into pl p k bs m of (n, m') \<Rightarrow> swap_loop n p m') =
           spec_store p (take k (be_words bs)) m"
  using assms
proof (induction bs arbitrary: p k m rule: be_words.induct)
  case (1 hi lo bs)
  show ?case
  proof (cases k)
    case 0
    then show ?thesis by simp
  next
    case (Suc j)
    let ?h = "host16 hi lo"
    let ?r = "fread_into pl (Suc p) j bs (m(word_of_nat p := ?h))"
    let ?r' = "fread_into pl (Suc p) j bs (m(word_of_nat p := be16 hi lo))"
    from "1.prems" Suc have inb: "p < MEMORY_MAX" and fit: "Suc p + j \<le> MEMORY_MAX"
      and ev: "even (length bs)" by simp_all
    have below: "fread_into pl (Suc p) j bs (m(word_of_nat p := v)) =
       (fst (fread_into pl (Suc p) j bs m), (snd (fread_into pl (Suc p) j bs m))(word_of_nat p := v))" for v
      using fit ev by (intro fread_into_below) simp_all
    have cell: "snd ?r (word_of_nat p) = ?h" by (simp add: below)
    have same: "fst ?r = fst ?r'" "(snd ?r)(word_of_nat p := be16 hi lo) = snd ?r'"
      by (simp_all add: below)
    have "(case fread_into pl p k (hi # lo # bs) m of (n, m') \<Rightarrow> swap_loop n p m') =
        swap_loop (fst ?r) (Suc p) ((snd ?r)(word_of_nat p := swap16 (snd ?r (word_of_nat p))))"
      unfolding Suc by (simp split: prod.splits)
    also have "\<dots> = swap_loop (fst ?r') (Suc p) (snd ?r')"
      unfolding cell swap16_host16 same ..
    also have "\<dots> = (case ?r' of (n, m') \<Rightarrow> swap_loop n (Suc p) m')"
      by (simp split: prod.splits)
    also have "\<dots> = spec_store (Suc p) (take j (be_words bs)) (m(word_of_nat p := be16 hi lo))"
      using fit ev by (rule "1.IH")
    finally show ?thesis using inb Suc by simp
  qed
qed (simp_all add: fread_into_nil)

lemma spec_store_take:
  "spec_store p (take (MEMORY_MAX - p) ws) m = spec_store p ws m"
proof (induction ws arbitrary: p m)
  case (Cons w ws)
  show ?case
  proof (cases "p < MEMORY_MAX")
    case True
    then have "MEMORY_MAX - p = Suc (MEMORY_MAX - Suc p)" by simp
    with True Cons [of "Suc p"] show ?thesis by (simp del: fun_upd_apply)
  qed simp
qed simp

lemma loader_refines_spec:
  assumes "be16 hi lo \<noteq> 0" and "even (length rest)"
  shows "read_image_file pl (hi # lo # rest) m = spec_read_image_file (hi # lo # rest) m"
proof -
  define origin where "origin = be16 hi lo"
  have pos: "0 < unat origin" using assms(1) by (simp add: origin_def unat_gt_0)
  have lt: "unat origin < MEMORY_MAX"
    using unsigned_less [of origin] by (simp add: MEMORY_MAX_def)
  have mr: "unat (word_of_nat (MEMORY_MAX - unat origin) :: u16) = MEMORY_MAX - unat origin"
    using pos lt by (subst unat_of_nat) (simp add: MEMORY_MAX_def)
  have "read_image_file pl (hi # lo # rest) m =
      (case fread_into pl (unat origin) (MEMORY_MAX - unat origin) rest m of
         (n, m') \<Rightarrow> swap_loop n (unat origin) m')"
    by (simp add: read_image_file_def swap16_host16 origin_def [symmetric] mr Let_def)
  also have "\<dots> = spec_store (unat origin) (take (MEMORY_MAX - unat origin) (be_words rest)) m"
    using lt assms(2) by (intro loader_passes) simp_all
  also have "\<dots> = spec_store (unat origin) (be_words rest) m"
    by (rule spec_store_take)
  finally show ?thesis by (simp add: spec_read_image_file_def origin_def)
qed

lemma loader_partial_element:
  "read_image_file pl [0x30, 0x00, 0x12, 0x34, 0x56] m =
     m(0x3000 := 0x1234, 0x3001 := partial_elem pl (m 0x3001) 0x56)"
proof -
  have o: "swap16 (host16 0x30 0x00) = 0x3000" by (simp add: swap16_def host16_def)
  have s: "swap16 (host16 0x12 0x34) = 0x1234" by (simp add: swap16_def host16_def)
  show ?thesis
    by (simp add: read_image_file_def o s MEMORY_MAX_def Let_def fread_into_pair
        fread_into_single fun_eq_iff)
qed

subsection \<open>Program entry\<close>

lemma main_start_usage:
  "main_start pl fs argv0 [] ks inp = Exit (argv0 @ '' [image-file1] ...'' @ [CHR 0x0A]) 2"
  by (simp add: main_start_def)

lemma main_start_opens_argv0:
  assumes "args \<noteq> []" and "fs argv0 = None"
  shows "main_start pl fs argv0 args ks inp =
           Exit (''failed to load image: '' @ argv0 @ [CHR 0x0A]) 1"
proof -
  from assms(1) have "\<not> 1 + length args < 2" by (cases args) simp_all
  with assms(2) show ?thesis by (simp add: main_start_def read_image_def)
qed

lemma sample_images:
  "read_image_file pl [0x7f, 0x45, 0x4c, 0x46] m = m(0x7f45 := 0x4c46)"
  "read_image_file pl [0x30, 0x00, 0xf0, 0x25] m = m(0x3000 := 0xf025)"
proof -
  have o: "swap16 (host16 0x7f 0x45) = 0x7f45" "swap16 (host16 0x4c 0x46) = 0x4c46"
    "swap16 (host16 0x30 0x00) = 0x3000" "swap16 (host16 0xf0 0x25) = 0xf025"
    by (simp_all add: swap16_def host16_def)
  show "read_image_file pl [0x7f, 0x45, 0x4c, 0x46] m = m(0x7f45 := 0x4c46)"
    by (simp add: read_image_file_def o MEMORY_MAX_def Let_def fread_into_pair fread_into_nil)
  show "read_image_file pl [0x30, 0x00, 0xf0, 0x25] m = m(0x3000 := 0xf025)"
    by (simp add: read_image_file_def o MEMORY_MAX_def Let_def fread_into_pair fread_into_nil)
qed

text \<open>
  Claim C1.  With at least one positional argument the program loads exactly the images
  named by the positional arguments, in order, before execution starts; a given image that
  cannot be opened ends the program with status 1 and a message naming it; with no
  positional argument the program prints its usage and ends with status 2.

  The code's loop starts at \<^verbatim>\<open>argv[0]\<close>, the program's own name, so it does more.  In
  the directory \<open>here_fs\<close> the command \<open>vm a.obj\<close> loads the executable \<open>vm\<close> as an
  image first: cell x7F45 holds x4C46 when execution starts, where loading \<open>a.obj\<close>
  alone leaves 0.  In \<open>away_fs\<close>, where \<open>a.obj\<close> opens but the name \<open>vm\<close> does not, the
  program ends with status 1 and names \<open>vm\<close>, though every given image can be opened.
\<close>

theorem main_loads_its_own_name:
  "main_start x86_host here_fs ''vm'' [''a.obj''] ks inp =
     Started (init_vm ((\<lambda>a. 0)(0x7f45 := 0x4c46, 0x3000 := 0xf025)) ks inp) \<and>
   load_images x86_host here_fs [''a.obj''] (\<lambda>a. 0) = Inr ((\<lambda>a. 0)(0x3000 := 0xf025)) \<and>
   ((\<lambda>a :: u16. 0)(0x7f45 := 0x4c46, 0x3000 := 0xf025)) 0x7f45 = (0x4c46 :: u16) \<and>
   ((\<lambda>a :: u16. 0)(0x3000 := 0xf025)) 0x7f45 = (0 :: u16) \<and>
   away_fs ''a.obj'' = Some [0x30, 0x00, 0xf0, 0x25] \<and>
   main_start x86_host away_fs ''vm'' [''a.obj''] ks inp =
     Exit (''failed to load image: vm'' @ [CHR 0x0A]) 1"
proof -
  have 1: "main_start x86_host here_fs ''vm'' [''a.obj''] ks inp =
     Started (init_vm ((\<lambda>a. 0)(0x7f45 := 0x4c46, 0x3000 := 0xf025)) ks inp)"
    by (simp add: main_start_def read_image_def here_fs_def sample_images)
  have 2: "load_images x86_host here_fs [''a.obj''] (\<lambda>a. 0) = Inr ((\<lambda>a. 0)(0x3000 := 0xf025))"
    by (simp add: read_image_def here_fs_def sample_images)
  have 3: "away_fs ''a.obj'' = Some [0x30, 0x00, 0xf0, 0x25]" "away_fs ''vm'' = None"
    by (simp_all add: away_fs_def)
  have 4: "main_start x86_host away_fs ''vm'' [''a.obj''] ks inp =
     Exit (''failed to load image: vm'' @ [CHR 0x0A]) 1"
    using main_start_opens_argv0 [of "[''a.obj'']" away_fs "''vm''"] 3 by simp
  from 1 2 3 4 show ?thesis by simp
qed

subsection \<open>Memory\<close>

lemma mem_read_KBSR_byte:
  assumes "keys s 0" and "stdin s = b # bs"
  shows "mem_read MR_KBSR s =
        (0x8000, s\<lparr>memory := (memory s)(MR_KBSR := 0x8000, MR_KBDR := ucast b),
                   keys := (\<lambda>n. keys s (Suc n)), stdin := bs\<rparr>)"
  using assms
  by (simp add: mem_read_def check_key_def getchar_def getchar_byte_u16 MR_KBSR_def MR_KBDR_def)

lemma mem_read_KBSR_eof:
  assumes "keys s 0" and "stdin s = []"
  shows "mem_read MR_KBSR s =
        (0x8000, s\<lparr>memory := (memory s)(MR_KBSR := 0x8000, MR_KBDR := 0xffff),
                   keys := (\<lambda>n. keys s (Suc n))\<rparr>)"
  using assms
  by (simp add: mem_read_def check_key_def getchar_def getchar_eof_u16 MR_KBSR_def MR_KBDR_def)

lemma mem_read_KBSR_idle:
  assumes "\<not> keys s 0"
  shows "mem_read MR_KBSR s =
        (0, s\<lparr>memory := (memory s)(MR_KBSR := 0), keys := (\<lambda>n. keys s (Suc n))\<rparr>)"
  using assms
  by (simp add: mem_read_def check_key_def)

lemma mem_read_returns_cell: "fst (mem_read addr s) = memory (snd (mem_read addr s)) addr"
  by (simp add: mem_read_def Let_def)

text \<open>
  Claim C3, as amended.  A read at any address but the keyboard status register returns
  the cell and changes nothing.  A read at the keyboard status register first polls: when
  the poll reports input, the status cell becomes x8000 and the data cell xFE02 receives
  what \<^verbatim>\<open>getchar\<close> returns, cut to 16 bits, which is the pending byte zero-extended, or
  xFFFF when standard input is at its end; when the poll reports none, the status cell
  becomes 0.  In every case the value returned is the cell at the address after that
  update.  A write stores the value at the address, leaves every other cell as it was, and
  touches neither the registers nor the terminal.
\<close>

theorem mem_read_write_contract:
  "(addr \<noteq> MR_KBSR \<longrightarrow> mem_read addr s = (memory s addr, s)) \<and>
   (keys s 0 \<longrightarrow> (\<forall>b bs. stdin s = b # bs \<longrightarrow>
      mem_read MR_KBSR s =
        (0x8000, s\<lparr>memory := (memory s)(MR_KBSR := 0x8000, MR_KBDR := ucast b),
                   keys := (\<lambda>n. keys s (Suc n)), stdin := bs\<rparr>))) \<and>
   (keys s 0 \<longrightarrow> stdin s = [] \<longrightarrow>
      mem_read MR_KBSR s =
        (0x8000, s\<lparr>memory := (memory s)(MR_KBSR := 0x8000, MR_KBDR := 0xffff),
                   keys := (\<lambda>n. keys s (Suc n))\<rparr>)) \<and>
   (\<not> keys s 0 \<longrightarrow>
      mem_read MR_KBSR s =
        (0, s\<lparr>memory := (memory s)(MR_KBSR := 0), keys := (\<lambda>n. keys s (Suc n))\<rparr>)) \<and>
   fst (mem_read addr s) = memory (snd (mem_read addr s)) addr \<and>
   memory (mem_write addr v s) addr = v \<and>
   (\<forall>a. a \<noteq> addr \<longrightarrow> memory (mem_write addr v s) a = memory s a) \<and>
   reg (mem_write addr v s) = reg s \<and> keys (mem_write addr v s) = keys s \<and>
   stdin (mem_write addr v s) = stdin s \<and> stdout (mem_write addr v s) = stdout s"
proof (intro conjI impI allI)
  show "fst (mem_read addr s) = memory (snd (mem_read addr s)) addr"
    by (rule mem_read_returns_cell)
qed (simp_all add: mem_read_plain mem_read_KBSR_byte mem_read_KBSR_eof mem_read_KBSR_idle
      mem_write_def)

theorem mem_read_write_contract_witness:
  "mem_read 0x3000 (init_vm add_image (\<lambda>n. True) [0x61]) =
     (0x123f, init_vm add_image (\<lambda>n. True) [0x61]) \<and>
   fst (mem_read MR_KBSR (init_vm add_image (\<lambda>n. True) [0x61])) = 0x8000 \<and>
   memory (snd (mem_read MR_KBSR (init_vm add_image (\<lambda>n. True) [0x61]))) MR_KBDR = 0x61 \<and>
   stdin (snd (mem_read MR_KBSR (init_vm add_image (\<lambda>n. True) [0x61]))) = [] \<and>
   fst (mem_read MR_KBSR (init_vm add_image (\<lambda>n. False) [0x61])) = 0 \<and>
   stdin (snd (mem_read MR_KBSR (init_vm add_image (\<lambda>n. False) [0x61]))) = [0x61] \<and>
   memory (mem_write 0x3000 7 (init_vm add_image (\<lambda>n. True) [0x61])) 0x3000 = 7 \<and>
   memory (mem_write 0x3000 7 (init_vm add_image (\<lambda>n. True) [0x61])) 0x3001 = 0"
proof -
  let ?s = "init_vm add_image (\<lambda>n. True) [0x61]"
  let ?t = "init_vm add_image (\<lambda>n. False) [0x61]"
  have k: "keys ?s 0" "stdin ?s = [0x61]" "\<not> keys ?t 0" "(0x3000 :: u16) \<noteq> MR_KBSR"
    "(0x3001 :: u16) \<noteq> 0x3000" "memory ?s 0x3000 = 0x123f" "memory ?s 0x3001 = 0"
    "stdin ?t = [0x61]"
    by (simp_all add: init_vm_def MR_KBSR_def add_image_def)
  note a = mem_read_write_contract [of "0x3000" ?s 7]
  note b = mem_read_write_contract [of "0x3000" ?t 7]
  from a k have 1: "mem_read 0x3000 ?s = (0x123f, ?s)" by simp
  from a k have 2: "mem_read MR_KBSR ?s =
        (0x8000, ?s\<lparr>memory := (memory ?s)(MR_KBSR := 0x8000, MR_KBDR := ucast (0x61 :: u8)),
                   keys := (\<lambda>n. keys ?s (Suc n)), stdin := []\<rparr>)" by blast
  from b k have 3: "mem_read MR_KBSR ?t =
        (0, ?t\<lparr>memory := (memory ?t)(MR_KBSR := 0), keys := (\<lambda>n. keys ?t (Suc n))\<rparr>)"
    by blast
  from a k have 4: "memory (mem_write 0x3000 7 ?s) 0x3000 = 7"
    "memory (mem_write 0x3000 7 ?s) 0x3001 = 0" by simp_all
  show ?thesis
    unfolding 1 2 3 using 4 k(8) by simp
qed

text \<open>
  Claim C3 as stated fails at the end of input: the poll reports input, no byte is
  pending, and still the status cell becomes x8000, while the data cell receives xFFFF,
  which is no zero-extended byte.
\<close>

theorem mem_read_eof_counterexample:
  "keys (init_vm (\<lambda>a. 0) (\<lambda>n. True) []) 0 \<and>
   stdin (init_vm (\<lambda>a. 0) (\<lambda>n. True) []) = [] \<and>
   memory (snd (mem_read MR_KBSR (init_vm (\<lambda>a. 0) (\<lambda>n. True) []))) MR_KBSR = 0x8000 \<and>
   memory (snd (mem_read MR_KBSR (init_vm (\<lambda>a. 0) (\<lambda>n. True) []))) MR_KBDR = 0xffff \<and>
   (0xff :: u16) < 0xffff"
  by (simp add: mem_read_def check_key_def getchar_def getchar_eof_u16 init_vm_def MR_KBSR_def
      MR_KBDR_def)

subsection \<open>Condition flags\<close>

lemma op_flag_forms:
  "\<exists>s'. op_add instr s = update_flags (unat (drop_bit 9 instr AND 0x7)) s'"
  "\<exists>s'. op_and instr s = update_flags (unat (drop_bit 9 instr AND 0x7)) s'"
  "\<exists>s'. op_not instr s = update_flags (unat (drop_bit 9 instr AND 0x7)) s'"
  "\<exists>s'. op_ld instr s = update_flags (unat (drop_bit 9 instr AND 0x7)) s'"
  "\<exists>s'. op_ldi instr s = update_flags (unat (drop_bit 9 instr AND 0x7)) s'"
  "\<exists>s'. op_ldr instr s = update_flags (unat (drop_bit 9 instr AND 0x7)) s'"
  "\<exists>s'. op_lea instr s = update_flags (unat (drop_bit 9 instr AND 0x7)) s'"
  by (auto simp add: op_add_def op_and_def op_not_def op_ld_def op_ldi_def op_ldr_def op_lea_def
      Let_def split: prod.splits)

lemma trap_flag_forms:
  "instr AND 0xff = TRAP_GETC \<Longrightarrow> \<exists>s'. op_trap pl instr s = Running (update_flags R_R0 s')"
  "instr AND 0xff = TRAP_IN \<Longrightarrow> \<exists>s'. op_trap pl instr s = Running (update_flags R_R0 s')"
  by (auto simp add: op_trap_def Let_def TRAP_GETC_def TRAP_OUT_def TRAP_PUTS_def TRAP_IN_def
      split: prod.splits)

lemma flag_rule:
  assumes "r \<noteq> R_COND"
  shows "reg (update_flags r s) R_COND =
     (if reg (update_flags r s) r = 0 then FL_ZRO
      else if bit (reg (update_flags r s) r) 15 then FL_NEG else FL_POS)"
  using assms by (simp add: update_flags_cond update_flags_simps)

text \<open>
  Claim C4.  After every instruction that writes a destination register (ADD, AND, NOT, LD,
  LDI, LDR, LEA; the register is bits 11 to 9 of the instruction) and after the traps GETC
  and IN (the register is R0), the cycle leaves the machine running and the condition
  register holds \<open>FL_ZRO\<close> if the register just written is 0, \<open>FL_NEG\<close> if its bit 15 is
  set, and \<open>FL_POS\<close> otherwise.  The three values are the single bits 2, 4 and 1, so
  exactly one indicator is set, and it is the one of the value now in the register.
\<close>

theorem flags_after_write:
  assumes f: "fetch s = (instr, s1)"
    and w: "drop_bit 12 instr \<in> {OP_ADD, OP_AND, OP_NOT, OP_LD, OP_LDI, OP_LDR, OP_LEA}
              \<and> r = unat (drop_bit 9 instr AND 0x7)
            \<or> drop_bit 12 instr = OP_TRAP \<and> instr AND 0xff \<in> {TRAP_GETC, TRAP_IN} \<and> r = R_R0"
  shows "\<exists>s'. step pl s = Running s' \<and>
           reg s' R_COND =
             (if reg s' r = 0 then FL_ZRO else if bit (reg s' r) 15 then FL_NEG else FL_POS) \<and>
           FL_POS = 1 \<and> FL_ZRO = 2 \<and> FL_NEG = 4"
proof -
  have vals: "FL_POS = 1 \<and> FL_ZRO = 2 \<and> FL_NEG = 4"
    by (simp add: FL_POS_def FL_ZRO_def FL_NEG_def)
  have "\<exists>s2. execute pl instr s1 = Running (update_flags r s2) \<and> r \<noteq> R_COND"
    using w
  proof (elim disjE conjE)
    assume op: "drop_bit 12 instr \<in> {OP_ADD, OP_AND, OP_NOT, OP_LD, OP_LDI, OP_LDR, OP_LEA}"
      and r: "r = unat (drop_bit 9 instr AND 0x7)"
    from op show ?thesis
      unfolding r using op_flag_forms [of instr s1] field3_not_special(1) [of "drop_bit 9 instr"]
      by (auto simp add: execute_def opcode_defs)
  next
    assume op: "drop_bit 12 instr = OP_TRAP" and v: "instr AND 0xff \<in> {TRAP_GETC, TRAP_IN}"
      and r: "r = R_R0"
    from v op show ?thesis
      unfolding r using trap_flag_forms [of instr pl s1]
      by (auto simp add: execute_def opcode_defs R_R0_def R_COND_def)
  qed
  then obtain s2 where e: "execute pl instr s1 = Running (update_flags r s2)" and r: "r \<noteq> R_COND"
    by blast
  from e f have "step pl s = Running (update_flags r s2)" by (simp add: step_def)
  with flag_rule [OF r, of s2] vals show ?thesis by simp
qed

theorem flags_after_write_witness:
  "is_running (step x86_host (init_vm not_image (\<lambda>n. False) [])) \<and>
   reg (state_of (step x86_host (init_vm not_image (\<lambda>n. False) []))) 2 = 0xffff \<and>
   reg (state_of (step x86_host (init_vm not_image (\<lambda>n. False) []))) R_COND = FL_NEG"
proof -
  let ?s = "init_vm not_image (\<lambda>n. False) []"
  have f: "fetch ?s = (0x94bf, set_reg R_PC 0x3001 ?s)"
    by (simp add: machine_defs reg_names not_image_def)
  have w: "drop_bit 12 (0x94bf :: u16) \<in> {OP_ADD, OP_AND, OP_NOT, OP_LD, OP_LDI, OP_LDR, OP_LEA}
              \<and> (2 :: nat) = unat (drop_bit 9 (0x94bf :: u16) AND 0x7)
            \<or> drop_bit 12 (0x94bf :: u16) = OP_TRAP \<and> (0x94bf :: u16) AND 0xff \<in> {TRAP_GETC, TRAP_IN} \<and> (2 :: nat) = R_R0"
    by (simp add: opcode_defs)
  from flags_after_write [OF f w, of x86_host]
  obtain s' where s': "step x86_host ?s = Running s'"
    and c: "reg s' R_COND = (if reg s' 2 = 0 then FL_ZRO else if bit (reg s' 2) 15 then FL_NEG else FL_POS)"
    by blast
  have v: "reg (state_of (step x86_host ?s)) 2 = 0xffff"
    by (simp add: machine_defs reg_names not_image_def opcode_defs op_not_def)
  with s' have "reg s' 2 = 0xffff" by simp
  with c have "reg s' R_COND = FL_NEG" by simp
  with s' v show ?thesis by simp
qed

subsection \<open>Subroutine linkage\<close>

text \<open>
  Claim C5, as amended.  The cycle advances the program counter before it executes, so a
  JSR stores the address of the instruction after itself in R7.  If, after the JSR and
  \<open>n\<close> further cycles of subroutine body, the machine is about to execute \<^verbatim>\<open>JMP R7\<close> and
  R7 still holds the value the JSR stored, then the next cycle puts the program counter
  at the instruction after the JSR.
\<close>

theorem jsr_links_return:
  assumes jsr: "drop_bit 12 (fst (fetch s)) = OP_JSR"
    and body: "run pl (Suc n) s = Running t"
    and keep: "reg t R_R7 = reg s R_PC + 1"
    and jmp: "drop_bit 12 (fst (fetch t)) = OP_JMP" "drop_bit 6 (fst (fetch t)) AND 0x7 = 7"
  shows "(\<exists>s'. step pl s = Running s' \<and> reg s' R_R7 = reg s R_PC + 1) \<and>
         (\<exists>t'. run pl (Suc (Suc n)) s = Running t' \<and> reg t' R_PC = reg s R_PC + 1)"
proof
  obtain instr s1 where f: "fetch s = (instr, s1)" by (cases "fetch s")
  with jsr have "step pl s = Running (op_jsr instr s1)"
    by (simp add: step_def execute_def opcode_defs)
  moreover have "reg (op_jsr instr s1) R_R7 = reg s R_PC + 1"
    using fetch_reg [of s] f field3_not_special [of "drop_bit 6 instr"] field3_less [of "drop_bit 6 instr"]
    by (auto simp add: op_jsr_def Let_def set_reg_simps R_R7_def R_PC_def)
  ultimately show "\<exists>s'. step pl s = Running s' \<and> reg s' R_R7 = reg s R_PC + 1" by simp
next
  obtain instr t1 where f: "fetch t = (instr, t1)" by (cases "fetch t")
  with jmp have "step pl t = Running (op_jmp instr t1)"
    by (simp add: step_def execute_def opcode_defs)
  moreover have "reg (op_jmp instr t1) R_PC = reg t R_R7"
    using fetch_reg [of t] f jmp(2)
    by (simp add: op_jmp_def set_reg_simps R_R7_def R_PC_def)
  moreover have "run pl (Suc (Suc n)) s = step pl t"
    using run_Suc_right [of pl "Suc n" s] body by simp
  ultimately show "\<exists>t'. run pl (Suc (Suc n)) s = Running t' \<and> reg t' R_PC = reg s R_PC + 1"
    using keep by simp
qed

lemma return_run:
  "fetch (init_vm return_image (\<lambda>n. False) []) =
     (0x4801, set_reg R_PC 0x3001 (init_vm return_image (\<lambda>n. False) []))"
  "step x86_host (init_vm return_image (\<lambda>n. False) []) =
     Running (set_reg R_PC 0x3002 (set_reg R_R7 0x3001 (init_vm return_image (\<lambda>n. False) [])))"
  "fetch (set_reg R_PC 0x3002 (set_reg R_R7 0x3001 (init_vm return_image (\<lambda>n. False) []))) =
     (0xc1c0, set_reg R_PC 0x3003 (set_reg R_R7 0x3001 (init_vm return_image (\<lambda>n. False) [])))"
  by (simp_all add: run_defs return_image_def fun_eq_iff)

theorem jsr_links_return_witness:
  "is_running (run x86_host 2 (init_vm return_image (\<lambda>n. False) [])) \<and>
   reg (state_of (run x86_host 2 (init_vm return_image (\<lambda>n. False) []))) R_PC = 0x3001"
proof -
  let ?s = "init_vm return_image (\<lambda>n. False) []"
  let ?t = "set_reg R_PC 0x3002 (set_reg R_R7 0x3001 ?s)"
  have jsr: "drop_bit 12 (fst (fetch ?s)) = OP_JSR"
    by (simp add: return_run OP_JSR_def)
  have body: "run x86_host (Suc 0) ?s = Running ?t"
    by (simp add: return_run)
  have pc: "reg ?s R_PC + 1 = 0x3001" by (simp add: init_vm_def reg_names PC_START_def)
  have keep: "reg ?t R_R7 = reg ?s R_PC + 1"
    unfolding pc by (simp add: set_reg_def reg_names)
  have jmp: "drop_bit 12 (fst (fetch ?t)) = OP_JMP" "drop_bit 6 (fst (fetch ?t)) AND 0x7 = 7"
    by (simp_all add: return_run OP_JMP_def)
  have two: "(2 :: nat) = Suc (Suc 0)" by simp
  from jsr_links_return [OF jsr body keep jmp]
  obtain t' where "run x86_host (Suc (Suc 0)) ?s = Running t'" "reg t' R_PC = reg ?s R_PC + 1"
    by blast
  then show ?thesis unfolding two pc by simp
qed

text \<open>
  Claim C5 as stated, for every program in which a \<^verbatim>\<open>JMP R7\<close> follows the subroutine
  body, fails when the body overwrites R7, as every TRAP does.  In \<open>clobber_image\<close> the
  JSR at x3000 is followed by \<^verbatim>\<open>TRAP x21\<close> and \<^verbatim>\<open>JMP R7\<close>; after the jump the program
  counter is x3003, the address of the \<^verbatim>\<open>JMP R7\<close> itself, not x3001.
\<close>

lemma clobber_run:
  "step x86_host (init_vm clobber_image (\<lambda>n. False) []) =
     Running (set_reg R_PC 0x3002 (set_reg R_R7 0x3001 (init_vm clobber_image (\<lambda>n. False) [])))"
  "step x86_host (set_reg R_PC 0x3002 (set_reg R_R7 0x3001 (init_vm clobber_image (\<lambda>n. False) []))) =
     Running (fputc 0 (set_reg R_R7 0x3003 (set_reg R_PC 0x3003
        (init_vm clobber_image (\<lambda>n. False) []))))"
  "fetch (fputc 0 (set_reg R_R7 0x3003 (set_reg R_PC 0x3003
        (init_vm clobber_image (\<lambda>n. False) [])))) =
     (0xc1c0, fputc 0 (set_reg R_R7 0x3003 (set_reg R_PC 0x3004
        (init_vm clobber_image (\<lambda>n. False) []))))"
  "step x86_host (fputc 0 (set_reg R_R7 0x3003 (set_reg R_PC 0x3003
        (init_vm clobber_image (\<lambda>n. False) [])))) =
     Running (fputc 0 (set_reg R_R7 0x3003 (set_reg R_PC 0x3003
        (init_vm clobber_image (\<lambda>n. False) []))))"
  by (simp_all add: run_defs clobber_image_def fun_eq_iff)

theorem jsr_clobbered_counterexample:
  "drop_bit 12 (fst (fetch (init_vm clobber_image (\<lambda>n. False) []))) = OP_JSR \<and>
   reg (init_vm clobber_image (\<lambda>n. False) []) R_PC + 1 = 0x3001 \<and>
   is_running (run x86_host 2 (init_vm clobber_image (\<lambda>n. False) [])) \<and>
   fst (fetch (state_of (run x86_host 2 (init_vm clobber_image (\<lambda>n. False) [])))) = 0xc1c0 \<and>
   is_running (run x86_host 3 (init_vm clobber_image (\<lambda>n. False) [])) \<and>
   reg (state_of (run x86_host 3 (init_vm clobber_image (\<lambda>n. False) []))) R_PC = 0x3003"
proof -
  have jsr: "drop_bit 12 (fst (fetch (init_vm clobber_image (\<lambda>n. False) []))) = OP_JSR"
    by (simp add: run_defs clobber_image_def)
  have pc: "reg (init_vm clobber_image (\<lambda>n. False) []) R_PC + 1 = 0x3001"
    by (simp add: init_vm_def reg_names PC_START_def)
  have two: "run x86_host 2 (init_vm clobber_image (\<lambda>n. False) []) =
      Running (fputc 0 (set_reg R_R7 0x3003 (set_reg R_PC 0x3003
        (init_vm clobber_image (\<lambda>n. False) []))))"
    by (simp add: numeral_2_eq_2 clobber_run)
  have three: "run x86_host 3 (init_vm clobber_image (\<lambda>n. False) []) =
      Running (fputc 0 (set_reg R_R7 0x3003 (set_reg R_PC 0x3003
        (init_vm clobber_image (\<lambda>n. False) []))))"
    by (simp add: numeral_3_eq_3 clobber_run)
  have at: "reg (fputc 0 (set_reg R_R7 0x3003 (set_reg R_PC 0x3003
        (init_vm clobber_image (\<lambda>n. False) [])))) R_PC = 0x3003"
    by (simp add: fputc_def set_reg_def reg_names)
  show ?thesis
    unfolding two three using jsr pc at by (simp add: clobber_run)
qed

subsection \<open>Addition\<close>

text \<open>
  Claim C6.  ADD, in its register and its immediate form, adds modulo 65536: the
  destination register receives the sum of the first source and the second operand, read
  as unsigned numbers, modulo 65536.  When the first source holds xFFFF and the second
  operand is 1 the result is 0 and the flag is Zero.  \<^verbatim>\<open>ADD R1, R0, #-1\<close> (the word x123F)
  with R0 = 0 gives R1 = xFFFF and the flag Negative.
\<close>

theorem add_wraps:
  assumes f: "fetch s = (instr, s1)" and op: "drop_bit 12 instr = OP_ADD"
  shows "\<exists>s'. step pl s = Running s' \<and>
     (let dr = unat (drop_bit 9 instr AND 0x7);
          a = reg s (unat (drop_bit 6 instr AND 0x7));
          b = (if drop_bit 5 instr AND 0x1 \<noteq> 0 then sign_extend (instr AND 0x1f) 5
               else reg s (unat (instr AND 0x7)))
      in unat (reg s' dr) = (unat a + unat b) mod 65536 \<and>
         (a = 0xffff \<and> b = 1 \<longrightarrow> reg s' dr = 0 \<and> reg s' R_COND = FL_ZRO)) \<and>
     (instr = 0x123f \<and> reg s 0 = 0 \<longrightarrow> reg s' 1 = 0xffff \<and> reg s' R_COND = FL_NEG)"
proof -
  define dr where "dr = unat (drop_bit 9 instr AND 0x7)"
  define a where "a = reg s (unat (drop_bit 6 instr AND 0x7))"
  define b where "b = (if drop_bit 5 instr AND 0x1 \<noteq> 0 then sign_extend (instr AND 0x1f) 5
               else reg s (unat (instr AND 0x7)))"
  define s' where "s' = op_add instr s1"
  have dr: "dr \<noteq> R_COND" unfolding dr_def by (rule field3_not_special)
  have regs: "reg s1 (unat (drop_bit 6 instr AND 0x7)) = reg s (unat (drop_bit 6 instr AND 0x7))"
    "reg s1 (unat (instr AND 0x7)) = reg s (unat (instr AND 0x7))"
    using f by (rule fetch_reg_field)+
  have form: "s' = update_flags dr (set_reg dr (a + b) s1)"
    by (simp add: s'_def op_add_def Let_def dr_def a_def b_def regs)
  from op f have st: "step pl s = Running s'"
    by (simp add: step_def execute_def s'_def)
  have val: "reg s' dr = a + b"
    using dr by (simp add: form update_flags_simps set_reg_simps)
  have cond: "reg s' R_COND = (if a + b = 0 then FL_ZRO else if bit (a + b) 15 then FL_NEG else FL_POS)"
    by (simp add: form update_flags_cond set_reg_simps)
  have wrap: "unat (reg s' dr) = (unat a + unat b) mod 65536"
    by (simp add: val unat_word_ariths)
  have one: "a = 0xffff \<and> b = 1 \<longrightarrow> reg s' dr = 0 \<and> reg s' R_COND = FL_ZRO"
    by (simp add: val cond)
  have scen: "instr = 0x123f \<and> reg s 0 = 0 \<longrightarrow> reg s' 1 = 0xffff \<and> reg s' R_COND = FL_NEG"
  proof (intro impI, elim conjE)
    assume i: "instr = 0x123f" and r0: "reg s 0 = 0"
    have "dr = 1" by (simp add: dr_def i)
    moreover have "a = 0" by (simp add: a_def i r0)
    moreover have "b = 0xffff" by (simp add: b_def i sign_extend_def)
    ultimately show "reg s' 1 = 0xffff \<and> reg s' R_COND = FL_NEG"
      using val cond by simp
  qed
  from st wrap one scen show ?thesis
    unfolding dr_def [symmetric] a_def [symmetric] b_def [symmetric] Let_def by blast
qed

lemma fetch_add: "fetch (init_vm add_image (\<lambda>n. False) []) =
   (0x123f, set_reg R_PC 0x3001 (init_vm add_image (\<lambda>n. False) []))"
  by (simp add: machine_defs reg_names add_image_def)

theorem add_wraps_witness:
  "is_running (step x86_host (init_vm add_image (\<lambda>n. False) [])) \<and>
   reg (init_vm add_image (\<lambda>n. False) []) 0 = 0 \<and>
   reg (state_of (step x86_host (init_vm add_image (\<lambda>n. False) []))) 1 = 0xffff \<and>
   reg (state_of (step x86_host (init_vm add_image (\<lambda>n. False) []))) R_COND = FL_NEG"
proof -
  let ?s = "init_vm add_image (\<lambda>n. False) []"
  have f: "fetch ?s = (0x123f, set_reg R_PC 0x3001 ?s)" by (rule fetch_add)
  have op: "drop_bit 12 (0x123f :: u16) = OP_ADD" by (simp add: OP_ADD_def)
  have r0: "reg ?s 0 = 0" by (simp add: init_vm_def reg_names)
  from add_wraps [OF f op, of x86_host] r0
  obtain s' where "step x86_host ?s = Running s'" "reg s' 1 = 0xffff" "reg s' R_COND = FL_NEG"
    by auto
  with r0 show ?thesis by simp
qed

subsection \<open>Reserved opcodes\<close>

text \<open>
  Claim C7.  When the fetched instruction has opcode 8 or 13, the cycle ends in \<^verbatim>\<open>abort()\<close>:
  the step is \<open>Aborted\<close>, standard output is what it was before the cycle, and the loop
  never reaches another instruction, however many cycles it is given.
\<close>

theorem reserved_opcode_aborts:
  assumes f: "fetch s = (instr, s1)"
    and op: "drop_bit 12 instr = OP_RTI \<or> drop_bit 12 instr = OP_RES"
  shows "step pl s = Aborted s1 \<and> stdout s1 = stdout s \<and> run pl (Suc n) s = Aborted s1"
proof -
  from op have "execute pl instr s1 = Aborted s1"
    by (auto simp add: execute_def opcode_defs)
  with f have st: "step pl s = Aborted s1" by (simp add: step_def)
  moreover from f have "stdout s1 = stdout s" using fetch_stdout [of s] by simp
  ultimately show ?thesis by simp
qed

theorem reserved_opcode_aborts_witness:
  "step x86_host (init_vm reserved_image (\<lambda>n. False) []) =
     Aborted (set_reg R_PC 0x3001 (init_vm reserved_image (\<lambda>n. False) [])) \<and>
   stdout (set_reg R_PC 0x3001 (init_vm reserved_image (\<lambda>n. False) [])) = [] \<and>
   run x86_host 5 (init_vm reserved_image (\<lambda>n. False) []) =
     Aborted (set_reg R_PC 0x3001 (init_vm reserved_image (\<lambda>n. False) []))"
proof -
  let ?s = "init_vm reserved_image (\<lambda>n. False) []"
  have f: "fetch ?s = (0xd000, set_reg R_PC 0x3001 ?s)"
    by (simp add: machine_defs reg_names reserved_image_def)
  have op: "drop_bit 12 (0xd000 :: u16) = OP_RTI \<or> drop_bit 12 (0xd000 :: u16) = OP_RES"
    by (simp add: opcode_defs)
  have e: "stdout ?s = []" by (simp add: init_vm_def)
  have n: "(5 :: nat) = Suc 4" by simp
  from reserved_opcode_aborts [OF f op, of x86_host 4] e show ?thesis
    unfolding n by simp
qed

subsection \<open>Determinism\<close>

lemma agree_mono: "agree k s s' \<Longrightarrow> j \<le> k \<Longrightarrow> agree j s s'"
  by (simp add: agree_def)

lemma agree_fields:
  "agree k s s' \<Longrightarrow> memory s = memory s'"
  "agree k s s' \<Longrightarrow> reg s = reg s'"
  "agree k s s' \<Longrightarrow> stdin s = stdin s'"
  "agree k s s' \<Longrightarrow> stdout s = stdout s'"
  by (simp_all add: agree_def)

lemma agree_pure:
  "agree k s s' \<Longrightarrow> agree k (set_reg r v s) (set_reg r v s')"
  "agree k s s' \<Longrightarrow> agree k (update_flags r s) (update_flags r s')"
  "agree k s s' \<Longrightarrow> agree k (mem_write a v s) (mem_write a v s')"
  "agree k s s' \<Longrightarrow> agree k (fputc c s) (fputc c s')"
  "agree k s s' \<Longrightarrow> agree k (fputs str s) (fputs str s')"
  by (simp_all add: agree_def set_reg_def update_flags_def mem_write_def fputc_def fputs_def)

lemma agree_getchar:
  assumes "agree k s s'"
  shows "fst (getchar s) = fst (getchar s') \<and> agree k (snd (getchar s)) (snd (getchar s'))"
  using assms by (simp add: agree_def getchar_def split: list.splits)

lemma agree_mem_read:
  assumes "agree (Suc k) s s'"
  shows "fst (mem_read a s) = fst (mem_read a s') \<and>
         agree k (snd (mem_read a s)) (snd (mem_read a s'))"
proof (cases "a = MR_KBSR")
  case False
  with assms show ?thesis by (simp add: mem_read_plain agree_def)
next
  case True
  from assms have k0: "keys s 0 = keys s' 0" and rest: "\<forall>i < k. keys s (Suc i) = keys s' (Suc i)"
    and f: "memory s = memory s'" "reg s = reg s'" "stdin s = stdin s'" "stdout s = stdout s'"
    by (simp_all add: agree_def)
  show ?thesis
  proof (cases "keys s 0")
    case idle: False
    with k0 have "\<not> keys s' 0" by simp
    with idle rest f show ?thesis
      unfolding True by (simp add: mem_read_KBSR_idle agree_def)
  next
    case ready: True
    with k0 have ready': "keys s' 0" by simp
    show ?thesis
    proof (cases "stdin s")
      case Nil
      with f have "stdin s' = []" by simp
      with Nil ready ready' rest f show ?thesis
        unfolding True by (simp add: mem_read_KBSR_eof agree_def)
    next
      case (Cons b bs)
      with f have "stdin s' = b # bs" by simp
      with Cons ready ready' rest f show ?thesis
        unfolding True by (simp add: mem_read_KBSR_byte agree_def)
    qed
  qed
qed

lemma agree_ops0:
  assumes "agree k s s'"
  shows "agree k (op_add instr s) (op_add instr s')"
    and "agree k (op_and instr s) (op_and instr s')"
    and "agree k (op_not instr s) (op_not instr s')"
    and "agree k (op_br instr s) (op_br instr s')"
    and "agree k (op_jmp instr s) (op_jmp instr s')"
    and "agree k (op_jsr instr s) (op_jsr instr s')"
    and "agree k (op_lea instr s) (op_lea instr s')"
    and "agree k (op_st instr s) (op_st instr s')"
    and "agree k (op_str instr s) (op_str instr s')"
  using assms agree_fields(2) [OF assms]
  by (simp_all add: op_add_def op_and_def op_not_def op_br_def op_jmp_def op_jsr_def op_lea_def
      op_st_def op_str_def Let_def agree_pure set_reg_simps)

lemma agree_puts_loop:
  "agree k s s' \<Longrightarrow> alike k (puts_loop c s) (puts_loop c s')"
proof (induction c s arbitrary: s' rule: puts_loop.induct)
  case (1 c s)
  from "1.prems" have m: "memory s' = memory s" by (simp add: agree_def)
  show ?case
  proof (cases "MEMORY_MAX \<le> c \<or> memory s (word_of_nat c) = 0")
    case True
    then have "puts_loop c s = (if MEMORY_MAX \<le> c then OutOfBounds s else Running s)"
      by (subst puts_loop.simps) auto
    moreover from True m
    have "puts_loop c s' = (if MEMORY_MAX \<le> c then OutOfBounds s' else Running s')"
      by (subst puts_loop.simps) auto
    ultimately show ?thesis using "1.prems" by simp
  next
    case False
    then have go: "\<not> MEMORY_MAX \<le> c" "memory s (word_of_nat c) \<noteq> 0" by simp_all
    have "alike k (puts_loop (Suc c) (fputc (ucast (memory s (word_of_nat c))) s))
                   (puts_loop (Suc c) (fputc (ucast (memory s (word_of_nat c))) s'))"
      using go "1.prems" by (intro "1.IH") (simp_all add: agree_pure)
    moreover have "puts_loop c s = puts_loop (Suc c) (fputc (ucast (memory s (word_of_nat c))) s)"
      using go by (subst puts_loop.simps) simp
    moreover have "puts_loop c s' = puts_loop (Suc c) (fputc (ucast (memory s (word_of_nat c))) s')"
      using go m by (subst puts_loop.simps) simp
    ultimately show ?thesis by simp
  qed
qed

lemma agree_putsp_loop:
  "agree k s s' \<Longrightarrow> alike k (putsp_loop c s) (putsp_loop c s')"
proof (induction c s arbitrary: s' rule: putsp_loop.induct)
  case (1 c s)
  from "1.prems" have m: "memory s' = memory s" by (simp add: agree_def)
  show ?case
  proof (cases "MEMORY_MAX \<le> c \<or> memory s (word_of_nat c) = 0")
    case True
    then have "putsp_loop c s = (if MEMORY_MAX \<le> c then OutOfBounds s else Running s)"
      by (subst putsp_loop.simps) auto
    moreover from True m
    have "putsp_loop c s' = (if MEMORY_MAX \<le> c then OutOfBounds s' else Running s')"
      by (subst putsp_loop.simps) auto
    ultimately show ?thesis using "1.prems" by simp
  next
    case False
    then have go: "\<not> MEMORY_MAX \<le> c" "memory s (word_of_nat c) \<noteq> 0" by simp_all
    define s1 where "s1 = fputc (ucast (memory s (word_of_nat c) AND 0xff)) s"
    define c2 where "c2 = (ucast (drop_bit 8 (memory s (word_of_nat c))) :: u8)"
    define s2 where "s2 = (if c2 \<noteq> 0 then fputc c2 s1 else s1)"
    define s1' where "s1' = fputc (ucast (memory s (word_of_nat c) AND 0xff)) s'"
    define s2' where "s2' = (if c2 \<noteq> 0 then fputc c2 s1' else s1')"
    have "agree k s2 s2'"
      using "1.prems" by (simp add: s2_def s2'_def s1_def s1'_def agree_pure)
    then have "alike k (putsp_loop (Suc c) s2) (putsp_loop (Suc c) s2')"
      using go by (intro "1.IH" [OF _ _ s1_def c2_def s2_def]) simp_all
    moreover have "putsp_loop c s = putsp_loop (Suc c) s2"
      using go by (subst putsp_loop.simps) (simp add: Let_def s2_def s1_def c2_def)
    moreover have "putsp_loop c s' = putsp_loop (Suc c) s2'"
      using go m by (subst putsp_loop.simps) (simp add: Let_def s2'_def s1'_def c2_def)
    ultimately show ?thesis by simp
  qed
qed

lemma agree_op_trap:
  assumes "agree k s s'"
  shows "alike k (op_trap pl instr s) (op_trap pl instr s')"
proof -
  from assms have r: "reg s' = reg s" by (simp add: agree_def)
  define s0 where "s0 = set_reg R_R7 (reg s R_PC) s"
  define s0' where "s0' = set_reg R_R7 (reg s R_PC) s'"
  have a0: "agree k s0 s0'" using assms by (simp add: s0_def s0'_def agree_pure)
  then have r0: "reg s0' = reg s0" by (simp add: agree_def)
  have g0: "fst (getchar s0) = fst (getchar s0')" "agree k (snd (getchar s0)) (snd (getchar s0'))"
    using agree_getchar [OF a0] by simp_all
  define s1 where "s1 = fputs ''Enter a character: '' s0"
  define s1' where "s1' = fputs ''Enter a character: '' s0'"
  have a1: "agree k s1 s1'" using a0 by (simp add: s1_def s1'_def agree_pure)
  have g1: "fst (getchar s1) = fst (getchar s1')" "agree k (snd (getchar s1)) (snd (getchar s1'))"
    using agree_getchar [OF a1] by simp_all
  have getc: "alike k
      (case getchar s0 of (ch, s1) \<Rightarrow> Running (update_flags R_R0 (set_reg R_R0 (word_of_int ch) s1)))
      (case getchar s0' of (ch, s1) \<Rightarrow> Running (update_flags R_R0 (set_reg R_R0 (word_of_int ch) s1)))"
    using g0 by (cases "getchar s0"; cases "getchar s0'") (simp add: agree_pure)
  have inn: "alike k
      (case getchar s1 of (ch, s2) \<Rightarrow>
         Running (update_flags R_R0 (fputc (word_of_int ch)
           (set_reg R_R0 (char_to_u16 pl (word_of_int ch)) s2))))
      (case getchar s1' of (ch, s2) \<Rightarrow>
         Running (update_flags R_R0 (fputc (word_of_int ch)
           (set_reg R_R0 (char_to_u16 pl (word_of_int ch)) s2))))"
    using g1 by (cases "getchar s1"; cases "getchar s1'") (simp add: agree_pure)
  show ?thesis
    unfolding op_trap_def Let_def r s0_def [symmetric] s0'_def [symmetric] r0
      s1_def [symmetric] s1'_def [symmetric]
    using getc inn a0 agree_puts_loop [OF a0] agree_putsp_loop [OF a0]
    by (simp add: agree_pure)
qed

lemma alike_mono: "alike k r r' \<Longrightarrow> j \<le> k \<Longrightarrow> alike j r r'"
  by (cases r; cases r') (simp_all add: agree_mono)

lemma alike_fields:
  assumes "alike k r r'"
  shows "memory (state_of r) = memory (state_of r')"
    and "reg (state_of r) = reg (state_of r')"
    and "stdin (state_of r) = stdin (state_of r')"
    and "stdout (state_of r) = stdout (state_of r')"
    and "is_running r = is_running r'"
    and "is_halted r = is_halted r'"
    and "left_memory r = left_memory r'"
  using assms by (cases r; cases r'; simp add: agree_def)+

lemma agree_read:
  assumes "agree (polls_of_read a + k) s s'"
  shows "fst (mem_read a s) = fst (mem_read a s') \<and>
         agree k (snd (mem_read a s)) (snd (mem_read a s'))"
proof (cases "a = MR_KBSR")
  case True
  with assms have "agree (Suc k) s s'" by (simp add: polls_of_read_def)
  then show ?thesis by (rule agree_mem_read)
next
  case False
  with assms have "agree k s s'" by (simp add: polls_of_read_def)
  with False show ?thesis by (simp add: mem_read_plain agree_fields)
qed

lemma agree_read_E:
  assumes "agree (polls_of_read a + k) s s'"
  obtains v t t' where "mem_read a s = (v, t)" and "mem_read a s' = (v, t')" and "agree k t t'"
  using agree_read [OF assms] by (cases "mem_read a s"; cases "mem_read a s'") simp

lemma agree_ld:
  assumes "agree (polls_of_read (reg s R_PC + sign_extend (instr AND 0x1ff) 9) + k) s s'"
  shows "agree k (op_ld instr s) (op_ld instr s')"
proof -
  from assms have r: "reg s = reg s'" by (rule agree_fields)
  from assms obtain v t t' where
    "mem_read (reg s R_PC + sign_extend (instr AND 0x1ff) 9) s = (v, t)"
    "mem_read (reg s R_PC + sign_extend (instr AND 0x1ff) 9) s' = (v, t')" "agree k t t'"
    by (rule agree_read_E)
  then show ?thesis by (simp add: op_ld_def Let_def r [symmetric] agree_pure)
qed

lemma agree_ldr:
  assumes "agree (polls_of_read (reg s (unat (drop_bit 6 instr AND 0x7)) +
              sign_extend (instr AND 0x3f) 6) + k) s s'"
  shows "agree k (op_ldr instr s) (op_ldr instr s')"
proof -
  from assms have r: "reg s = reg s'" by (rule agree_fields)
  from assms obtain v t t' where
    "mem_read (reg s (unat (drop_bit 6 instr AND 0x7)) + sign_extend (instr AND 0x3f) 6) s = (v, t)"
    "mem_read (reg s (unat (drop_bit 6 instr AND 0x7)) + sign_extend (instr AND 0x3f) 6) s' = (v, t')"
    "agree k t t'"
    by (rule agree_read_E)
  then show ?thesis by (simp add: op_ldr_def Let_def r [symmetric] agree_pure)
qed

lemma agree_sti:
  assumes "agree (polls_of_read (reg s R_PC + sign_extend (instr AND 0x1ff) 9) + k) s s'"
  shows "agree k (op_sti instr s) (op_sti instr s')"
proof -
  from assms have r: "reg s = reg s'" by (rule agree_fields)
  from assms obtain a t t' where 1:
    "mem_read (reg s R_PC + sign_extend (instr AND 0x1ff) 9) s = (a, t)"
    "mem_read (reg s R_PC + sign_extend (instr AND 0x1ff) 9) s' = (a, t')" "agree k t t'"
    by (rule agree_read_E)
  from 1(3) have "reg t = reg t'" by (rule agree_fields)
  with 1 show ?thesis by (simp add: op_sti_def Let_def r [symmetric] agree_pure)
qed

lemma agree_ldi:
  assumes "agree (polls_of_read (reg s R_PC + sign_extend (instr AND 0x1ff) 9) +
      polls_of_read (fst (mem_read (reg s R_PC + sign_extend (instr AND 0x1ff) 9) s)) + k) s s'"
  shows "agree k (op_ldi instr s) (op_ldi instr s') \<and>
     fst (mem_read (reg s R_PC + sign_extend (instr AND 0x1ff) 9) s') =
     fst (mem_read (reg s R_PC + sign_extend (instr AND 0x1ff) 9) s)"
proof -
  let ?a = "reg s R_PC + sign_extend (instr AND 0x1ff) 9"
  from assms have r: "reg s = reg s'" by (rule agree_fields)
  from assms have "agree (polls_of_read ?a + (polls_of_read (fst (mem_read ?a s)) + k)) s s'"
    by (simp add: add.assoc)
  then obtain a t t' where 1: "mem_read ?a s = (a, t)" "mem_read ?a s' = (a, t')"
    "agree (polls_of_read (fst (mem_read ?a s)) + k) t t'"
    by (rule agree_read_E)
  from 1(1,3) have "agree (polls_of_read a + k) t t'" by simp
  then obtain v u u' where 2: "mem_read a t = (v, u)" "mem_read a t' = (v, u')" "agree k u u'"
    by (rule agree_read_E)
  from 1 2 show ?thesis by (simp add: op_ldi_def Let_def r [symmetric] agree_pure)
qed


lemma exec_polls_cases:
  "drop_bit 12 instr = OP_LD \<Longrightarrow>
     exec_polls instr s = polls_of_read (reg s R_PC + sign_extend (instr AND 0x1ff) 9)"
  "drop_bit 12 instr = OP_LDI \<Longrightarrow>
     exec_polls instr s = polls_of_read (reg s R_PC + sign_extend (instr AND 0x1ff) 9) +
       polls_of_read (fst (mem_read (reg s R_PC + sign_extend (instr AND 0x1ff) 9) s))"
  "drop_bit 12 instr = OP_LDR \<Longrightarrow>
     exec_polls instr s =
       polls_of_read (reg s (unat (drop_bit 6 instr AND 0x7)) + sign_extend (instr AND 0x3f) 6)"
  "drop_bit 12 instr = OP_STI \<Longrightarrow>
     exec_polls instr s = polls_of_read (reg s R_PC + sign_extend (instr AND 0x1ff) 9)"
  "drop_bit 12 instr \<notin> {OP_LD, OP_LDI, OP_LDR, OP_STI} \<Longrightarrow> exec_polls instr s = 0"
  by (simp_all add: exec_polls_def Let_def opcode_defs)

lemma agree_execute_exact:
  assumes "agree (exec_polls instr s + k) s s'"
  shows "alike k (execute pl instr s) (execute pl instr s') \<and>
         exec_polls instr s' = exec_polls instr s"
proof -
  from assms have r: "reg s' = reg s" by (simp add: agree_def)
  consider (ld) "drop_bit 12 instr = OP_LD" | (ldi) "drop_bit 12 instr = OP_LDI"
    | (ldr) "drop_bit 12 instr = OP_LDR" | (sti) "drop_bit 12 instr = OP_STI"
    | (other) "drop_bit 12 instr \<notin> {OP_LD, OP_LDI, OP_LDR, OP_STI}"
    by blast
  then show ?thesis
  proof cases
    case ld
    with assms have "agree k (op_ld instr s) (op_ld instr s')"
      by (intro agree_ld) (simp add: exec_polls_cases)
    with ld show ?thesis by (simp add: execute_def opcode_defs exec_polls_cases r)
  next
    case ldi
    with assms have "agree k (op_ldi instr s) (op_ldi instr s') \<and>
       fst (mem_read (reg s R_PC + sign_extend (instr AND 0x1ff) 9) s') =
       fst (mem_read (reg s R_PC + sign_extend (instr AND 0x1ff) 9) s)"
      by (intro agree_ldi) (simp add: exec_polls_cases)
    with ldi show ?thesis by (simp add: execute_def opcode_defs exec_polls_cases r)
  next
    case ldr
    with assms have "agree k (op_ldr instr s) (op_ldr instr s')"
      by (intro agree_ldr) (simp add: exec_polls_cases)
    with ldr show ?thesis by (simp add: execute_def opcode_defs exec_polls_cases r)
  next
    case sti
    with assms have "agree k (op_sti instr s) (op_sti instr s')"
      by (intro agree_sti) (simp add: exec_polls_cases)
    with sti show ?thesis by (simp add: execute_def opcode_defs exec_polls_cases r)
  next
    case other
    with assms have a0: "agree k s s'" by (simp add: exec_polls_cases)
    from other have n: "drop_bit 12 instr \<noteq> OP_LD" "drop_bit 12 instr \<noteq> OP_LDI"
      "drop_bit 12 instr \<noteq> OP_LDR" "drop_bit 12 instr \<noteq> OP_STI" by simp_all
    have "alike k (execute pl instr s) (execute pl instr s')"
      unfolding execute_def Let_def
      using agree_ops0 [OF a0] agree_op_trap [OF a0] a0 n by simp
    with other show ?thesis by (simp add: exec_polls_cases)
  qed
qed

lemma agree_step_exact:
  assumes "agree (step_polls s + k) s s'"
  shows "alike k (step pl s) (step pl s') \<and> step_polls s' = step_polls s"
proof -
  from assms have r: "reg s' = reg s" by (simp add: agree_def)
  obtain instr s1 where f: "fetch s = (instr, s1)" by (cases "fetch s")
  with assms have a: "agree (polls_of_read (reg s R_PC) + (exec_polls instr s1 + k)) s s'"
    by (simp add: step_polls_def add.assoc)
  then have "agree (polls_of_read (reg s R_PC) + (exec_polls instr s1 + k))
      (set_reg R_PC (reg s R_PC + 1) s) (set_reg R_PC (reg s R_PC + 1) s')"
    by (rule agree_pure)
  then obtain v t t' where m:
    "mem_read (reg s R_PC) (set_reg R_PC (reg s R_PC + 1) s) = (v, t)"
    "mem_read (reg s R_PC) (set_reg R_PC (reg s R_PC + 1) s') = (v, t')"
    "agree (exec_polls instr s1 + k) t t'"
    by (rule agree_read_E)
  from m(1) f have vt: "v = instr" "t = s1" by (simp_all add: fetch_def)
  from m(2) have f': "fetch s' = (instr, t')" by (simp add: fetch_def r vt)
  from m(3) have "agree (exec_polls instr s1 + k) s1 t'" by (simp add: vt)
  from agree_execute_exact [OF this, of pl] f f' show ?thesis
    by (simp add: step_def step_polls_def r)
qed

lemma agree_run_exact:
  "agree (run_polls pl n s) s s' \<Longrightarrow>
     alike 0 (run pl n s) (run pl n s') \<and> run_polls pl n s' = run_polls pl n s"
proof (induction n arbitrary: s s')
  case 0
  then show ?case by simp
next
  case (Suc n)
  define k where "k = (case step pl s of Running t \<Rightarrow> run_polls pl n t | Halted t \<Rightarrow> 0
      | Aborted t \<Rightarrow> 0 | OutOfBounds t \<Rightarrow> 0)"
  from Suc.prems have "agree (step_polls s + k) s s'" by (simp add: k_def)
  then have st: "alike k (step pl s) (step pl s')" and sp: "step_polls s' = step_polls s"
    using agree_step_exact [of s k s' pl] by simp_all
  show ?case
  proof (cases "step pl s")
    case (Running t)
    with st obtain t' where t': "step pl s' = Running t'" "agree k t t'"
      by (cases "step pl s'") simp_all
    from Running have "k = run_polls pl n t" by (simp add: k_def)
    with t'(2) Suc.IH [of t t'] Running t'(1) sp show ?thesis by simp
  next
    case (Halted t)
    with st obtain t' where "step pl s' = Halted t'" "agree k t t'"
      by (cases "step pl s'") simp_all
    with Halted sp show ?thesis by (simp add: agree_mono)
  next
    case (Aborted t)
    with st obtain t' where "step pl s' = Aborted t'" "agree k t t'"
      by (cases "step pl s'") simp_all
    with Aborted sp show ?thesis by (simp add: agree_mono)
  next
    case (OutOfBounds t)
    with st obtain t' where "step pl s' = OutOfBounds t'" "agree k t t'"
      by (cases "step pl s'") simp_all
    with OutOfBounds sp show ?thesis by (simp add: agree_mono)
  qed
qed


text \<open>
  The count is exact: after \<open>n\<close> cycles the answers still to come are the original ones
  with the first \<open>run_polls pl n s\<close> removed, so that many calls of \<^verbatim>\<open>check_key\<close> were
  made, no more and no fewer.
\<close>

lemma keys_mem_read: "keys (snd (mem_read a s)) = (\<lambda>i. keys s (i + polls_of_read a))"
proof (cases "a = MR_KBSR")
  case False
  then show ?thesis by (simp add: mem_read_plain polls_of_read_def)
next
  case True
  show ?thesis
  proof (cases "keys s 0")
    case False
    then show ?thesis unfolding True by (simp add: mem_read_KBSR_idle polls_of_read_def)
  next
    case ready: True
    show ?thesis
    proof (cases "stdin s")
      case Nil
      with ready show ?thesis unfolding True by (simp add: mem_read_KBSR_eof polls_of_read_def)
    next
      case (Cons b bs)
      with ready show ?thesis unfolding True by (simp add: mem_read_KBSR_byte polls_of_read_def)
    qed
  qed
qed

lemma keys_pure:
  "keys (mem_write a v s) = keys s" "keys (fputs str s) = keys s"
  "keys (snd (getchar s)) = keys s"
  by (simp_all add: mem_write_def fputs_def getchar_def split: list.splits)

lemma keys_ops0:
  "keys (op_add instr s) = keys s" "keys (op_and instr s) = keys s"
  "keys (op_not instr s) = keys s" "keys (op_br instr s) = keys s"
  "keys (op_jmp instr s) = keys s" "keys (op_jsr instr s) = keys s"
  "keys (op_lea instr s) = keys s" "keys (op_st instr s) = keys s"
  "keys (op_str instr s) = keys s"
  by (simp_all add: op_add_def op_and_def op_not_def op_br_def op_jmp_def op_jsr_def op_lea_def
      op_st_def op_str_def Let_def set_reg_simps update_flags_simps keys_pure)

lemma keys_puts_loop: "keys (state_of (puts_loop c s)) = keys s"
proof (induction c s rule: puts_loop.induct)
  case (1 c s)
  show ?case
  proof (cases "MEMORY_MAX \<le> c \<or> memory s (word_of_nat c) = 0")
    case True
    then show ?thesis by (subst puts_loop.simps) auto
  next
    case False
    then have go: "\<not> MEMORY_MAX \<le> c" "memory s (word_of_nat c) \<noteq> 0" by simp_all
    from "1.IH" [OF go] go show ?thesis
      by (subst puts_loop.simps) (simp add: fputc_simps)
  qed
qed

lemma keys_putsp_loop: "keys (state_of (putsp_loop c s)) = keys s"
proof (induction c s rule: putsp_loop.induct)
  case (1 c s)
  show ?case
  proof (cases "MEMORY_MAX \<le> c \<or> memory s (word_of_nat c) = 0")
    case True
    then show ?thesis by (subst putsp_loop.simps) auto
  next
    case False
    then have go: "\<not> MEMORY_MAX \<le> c" "memory s (word_of_nat c) \<noteq> 0" by simp_all
    define s1 where "s1 = fputc (ucast (memory s (word_of_nat c) AND 0xff)) s"
    define c2 where "c2 = (ucast (drop_bit 8 (memory s (word_of_nat c))) :: u8)"
    define s2 where "s2 = (if c2 \<noteq> 0 then fputc c2 s1 else s1)"
    have k: "keys s2 = keys s" by (simp add: s2_def s1_def fputc_simps)
    have "putsp_loop c s = putsp_loop (Suc c) s2"
      using go by (subst putsp_loop.simps) (simp add: Let_def s2_def s1_def c2_def)
    with "1.IH" [OF go s1_def c2_def s2_def] k show ?thesis by simp
  qed
qed

lemma keys_op_trap: "keys (state_of (op_trap pl instr s)) = keys s"
proof -
  define s0 where "s0 = set_reg R_R7 (reg s R_PC) s"
  have k0: "keys s0 = keys s" by (simp add: s0_def set_reg_simps)
  define s1 where "s1 = fputs ''Enter a character: '' s0"
  have k1: "keys (snd (getchar s1)) = keys s" by (simp add: s1_def keys_pure k0)
  have g0: "keys (snd (getchar s0)) = keys s" by (simp add: keys_pure k0)
  have getc: "keys (state_of (case getchar s0 of
      (ch, t) \<Rightarrow> Running (update_flags R_R0 (set_reg R_R0 (word_of_int ch) t)))) = keys s"
    using g0 by (cases "getchar s0") (simp add: update_flags_simps set_reg_simps)
  have inn: "keys (state_of (case getchar s1 of
      (ch, t) \<Rightarrow> Running (update_flags R_R0 (fputc (word_of_int ch)
           (set_reg R_R0 (char_to_u16 pl (word_of_int ch)) t))))) = keys s"
    using k1 by (cases "getchar s1") (simp add: update_flags_simps set_reg_simps fputc_simps)
  show ?thesis
    unfolding op_trap_def Let_def s0_def [symmetric] s1_def [symmetric]
    using getc inn k0 by (simp add: keys_puts_loop keys_putsp_loop fputc_simps keys_pure)
qed

lemma keys_execute:
  "keys (state_of (execute pl instr s)) = (\<lambda>i. keys s (i + exec_polls instr s))"
proof -
  consider (ld) "drop_bit 12 instr = OP_LD" | (ldi) "drop_bit 12 instr = OP_LDI"
    | (ldr) "drop_bit 12 instr = OP_LDR" | (sti) "drop_bit 12 instr = OP_STI"
    | (other) "drop_bit 12 instr \<notin> {OP_LD, OP_LDI, OP_LDR, OP_STI}"
    by blast
  then show ?thesis
  proof cases
    case ld
    let ?a = "reg s R_PC + sign_extend (instr AND 0x1ff) 9"
    have "keys (op_ld instr s) = keys (snd (mem_read ?a s))"
      by (simp add: op_ld_def Let_def update_flags_simps set_reg_simps split: prod.splits)
    with ld show ?thesis
      by (simp add: execute_def opcode_defs exec_polls_cases keys_mem_read)
  next
    case ldr
    let ?a = "reg s (unat (drop_bit 6 instr AND 0x7)) + sign_extend (instr AND 0x3f) 6"
    have "keys (op_ldr instr s) = keys (snd (mem_read ?a s))"
      by (simp add: op_ldr_def Let_def update_flags_simps set_reg_simps split: prod.splits)
    with ldr show ?thesis
      by (simp add: execute_def opcode_defs exec_polls_cases keys_mem_read)
  next
    case sti
    let ?a = "reg s R_PC + sign_extend (instr AND 0x1ff) 9"
    have "keys (op_sti instr s) = keys (snd (mem_read ?a s))"
      by (simp add: op_sti_def Let_def keys_pure split: prod.splits)
    with sti show ?thesis
      by (simp add: execute_def opcode_defs exec_polls_cases keys_mem_read)
  next
    case ldi
    let ?a = "reg s R_PC + sign_extend (instr AND 0x1ff) 9"
    obtain a t where 1: "mem_read ?a s = (a, t)" by (cases "mem_read ?a s")
    then have kt: "keys t = (\<lambda>i. keys s (i + polls_of_read ?a))"
      using keys_mem_read [of ?a s] by simp
    have "keys (op_ldi instr s) = keys (snd (mem_read a t))"
      by (simp add: op_ldi_def Let_def 1 update_flags_simps set_reg_simps split: prod.splits)
    also have "\<dots> = (\<lambda>i. keys t (i + polls_of_read a))" by (rule keys_mem_read)
    also have "\<dots> = (\<lambda>i. keys s (i + (polls_of_read ?a + polls_of_read a)))"
      by (simp add: kt add.assoc add.commute add.left_commute)
    finally show ?thesis
      using ldi 1 by (simp add: execute_def opcode_defs exec_polls_cases)
  next
    case other
    then have n: "drop_bit 12 instr \<noteq> OP_LD" "drop_bit 12 instr \<noteq> OP_LDI"
      "drop_bit 12 instr \<noteq> OP_LDR" "drop_bit 12 instr \<noteq> OP_STI" by simp_all
    have "keys (state_of (execute pl instr s)) = keys s"
      unfolding execute_def Let_def using n by (simp add: keys_ops0 keys_op_trap)
    with other show ?thesis by (simp add: exec_polls_cases)
  qed
qed

lemma keys_step: "keys (state_of (step pl s)) = (\<lambda>i. keys s (i + step_polls s))"
proof -
  obtain instr s1 where f: "fetch s = (instr, s1)" by (cases "fetch s")
  then have "keys s1 = (\<lambda>i. keys s (i + polls_of_read (reg s R_PC)))"
    using keys_mem_read [of "reg s R_PC" "set_reg R_PC (reg s R_PC + 1) s"]
    by (simp add: fetch_def set_reg_simps)
  with f show ?thesis
    by (simp add: step_def step_polls_def keys_execute add.assoc add.commute add.left_commute)
qed

lemma keys_run: "keys (state_of (run pl n s)) = (\<lambda>i. keys s (i + run_polls pl n s))"
proof (induction n arbitrary: s)
  case 0
  show ?case by simp
next
  case (Suc n)
  show ?case
  proof (cases "step pl s")
    case (Running t)
    then have "keys t = (\<lambda>i. keys s (i + step_polls s))" using keys_step [of pl s] by simp
    with Running Suc [of t] show ?thesis
      by (simp add: add.assoc add.commute add.left_commute)
  next
    case (Halted t)
    then show ?thesis using keys_step [of pl s] by simp
  next
    case (Aborted t)
    then show ?thesis using keys_step [of pl s] by simp
  next
    case (OutOfBounds t)
    then show ?thesis using keys_step [of pl s] by simp
  qed
qed

text \<open>
  Claim C8, as amended.  Take two runs of the same command line on the same files, with
  the same input characters, whose keyboard polls get the same answers: the answers may
  differ only past the last poll the first run makes in its \<open>n\<close> cycles.  If the first run
  does not read past the end of memory (where the C program's behaviour is undefined),
  then the second makes the same polls and after \<open>n\<close> cycles the two are alike: same kind
  of outcome, same output, same memory, same registers and same pending input.
\<close>

theorem same_inputs_same_run:
  assumes "main_start pl fs argv0 args ks inp = Started s"
    and "main_start pl fs argv0 args ks' inp = Started s'"
    and "\<forall>i < run_polls pl n s. ks i = ks' i"
    and "\<not> left_memory (run pl n s)"
  shows "run_polls pl n s' = run_polls pl n s \<and>
         alike 0 (run pl n s) (run pl n s') \<and>
         \<not> left_memory (run pl n s') \<and>
         is_running (run pl n s') = is_running (run pl n s) \<and>
         is_halted (run pl n s') = is_halted (run pl n s) \<and>
         stdout (state_of (run pl n s')) = stdout (state_of (run pl n s)) \<and>
         memory (state_of (run pl n s')) = memory (state_of (run pl n s)) \<and>
         reg (state_of (run pl n s')) = reg (state_of (run pl n s)) \<and>
         stdin (state_of (run pl n s')) = stdin (state_of (run pl n s))"
proof -
  from assms(1) obtain m where s: "s = init_vm m ks inp"
    and m: "load_images pl fs (argv0 # args) (\<lambda>a. 0) = Inr m"
    by (auto simp add: main_start_def split: if_splits sum.splits)
  from assms(2) m have s': "s' = init_vm m ks' inp"
    by (auto simp add: main_start_def split: if_splits sum.splits)
  from assms(3) have "agree (run_polls pl n s) s s'"
    by (simp add: s s' agree_def init_vm_def)
  then have a: "alike 0 (run pl n s) (run pl n s')" and p: "run_polls pl n s' = run_polls pl n s"
    using agree_run_exact [of pl n s s'] by simp_all
  from alike_fields [OF a] assms(4) p a show ?thesis by simp
qed

lemma poll_loaded_image:
  "read_image_file pl [0x30, 0x00, 0xa0, 0x01, 0xf0, 0x25, 0xfe, 0x00] m =
     m(0x3000 := 0xa001, 0x3001 := 0xf025, 0x3002 := 0xfe00)"
proof -
  have o: "swap16 (host16 0x30 0x00) = 0x3000" "swap16 (host16 0xa0 0x01) = 0xa001"
    "swap16 (host16 0xf0 0x25) = 0xf025" "swap16 (host16 0xfe 0x00) = 0xfe00"
    by (simp_all add: swap16_def host16_def)
  show ?thesis
    by (simp add: read_image_file_def o MEMORY_MAX_def Let_def fread_into_pair fread_into_nil
        fun_eq_iff)
qed

lemma poll_loaded_start:
  "main_start x86_host poll_fs ''vm'' [''poll.obj''] ks inp = Started (init_vm poll_loaded ks inp)"
  by (simp add: main_start_def read_image_def poll_fs_def sample_images poll_loaded_image
      poll_loaded_def)

lemma poll_loaded_run:
  "step x86_host (init_vm poll_loaded (\<lambda>n. n = 0) [0x61]) =
     Running (update_flags R_R0 (set_reg R_R0 0x8000
       ((set_reg R_PC 0x3001 (init_vm poll_loaded (\<lambda>n. n = 0) [0x61]))
          \<lparr>memory := poll_loaded (MR_KBSR := 0x8000, MR_KBDR := 0x61),
           keys := (\<lambda>n. False), stdin := []\<rparr>)))"
  "step x86_host (update_flags R_R0 (set_reg R_R0 0x8000
       ((set_reg R_PC 0x3001 (init_vm poll_loaded (\<lambda>n. n = 0) [0x61]))
          \<lparr>memory := poll_loaded (MR_KBSR := 0x8000, MR_KBDR := 0x61),
           keys := (\<lambda>n. False), stdin := []\<rparr>))) =
     Halted (fputs ''HALT'' (set_reg R_R7 0x3002 (set_reg R_PC 0x3002 (update_flags R_R0
       (set_reg R_R0 0x8000
       ((set_reg R_PC 0x3001 (init_vm poll_loaded (\<lambda>n. n = 0) [0x61]))
          \<lparr>memory := poll_loaded (MR_KBSR := 0x8000, MR_KBDR := 0x61),
           keys := (\<lambda>n. False), stdin := []\<rparr>))))))"
  "step_polls (init_vm poll_loaded (\<lambda>n. n = 0) [0x61]) = 1"
  "step_polls (update_flags R_R0 (set_reg R_R0 0x8000
       ((set_reg R_PC 0x3001 (init_vm poll_loaded (\<lambda>n. n = 0) [0x61]))
          \<lparr>memory := poll_loaded (MR_KBSR := 0x8000, MR_KBDR := 0x61),
           keys := (\<lambda>n. False), stdin := []\<rparr>))) = 0"
  by (simp_all add: run_defs poll_loaded_def fun_eq_iff step_polls_def exec_polls_def
      polls_of_read_def)

theorem same_inputs_same_run_witness:
  "main_start x86_host poll_fs ''vm'' [''poll.obj''] (\<lambda>n. n = 0) [0x61] =
     Started (init_vm poll_loaded (\<lambda>n. n = 0) [0x61]) \<and>
   main_start x86_host poll_fs ''vm'' [''poll.obj''] (\<lambda>n. True) [0x61] =
     Started (init_vm poll_loaded (\<lambda>n. True) [0x61]) \<and>
   run_polls x86_host 2 (init_vm poll_loaded (\<lambda>n. n = 0) [0x61]) = 1 \<and>
   (\<lambda>n. n = 0) (1 :: nat) \<noteq> (\<lambda>n. True) (1 :: nat) \<and>
   is_halted (run x86_host 2 (init_vm poll_loaded (\<lambda>n. True) [0x61])) \<and>
   reg (state_of (run x86_host 2 (init_vm poll_loaded (\<lambda>n. True) [0x61]))) R_R0 = 0x8000 \<and>
   memory (state_of (run x86_host 2 (init_vm poll_loaded (\<lambda>n. True) [0x61]))) MR_KBDR = 0x61 \<and>
   stdin (state_of (run x86_host 2 (init_vm poll_loaded (\<lambda>n. True) [0x61]))) = [] \<and>
   stdout (state_of (run x86_host 2 (init_vm poll_loaded (\<lambda>n. True) [0x61]))) =
     [0x48, 0x41, 0x4c, 0x54]"
proof -
  let ?s = "init_vm poll_loaded (\<lambda>n. n = 0) [0x61]"
  let ?s' = "init_vm poll_loaded (\<lambda>n. True) [0x61]"
  let ?end = "fputs ''HALT'' (set_reg R_R7 0x3002 (set_reg R_PC 0x3002 (update_flags R_R0
       (set_reg R_R0 0x8000
       ((set_reg R_PC 0x3001 ?s)
          \<lparr>memory := poll_loaded (MR_KBSR := 0x8000, MR_KBDR := 0x61),
           keys := (\<lambda>n. False), stdin := []\<rparr>)))))"
  have a: "main_start x86_host poll_fs ''vm'' [''poll.obj''] (\<lambda>n. n = 0) [0x61] = Started ?s"
    by (rule poll_loaded_start)
  have b: "main_start x86_host poll_fs ''vm'' [''poll.obj''] (\<lambda>n. True) [0x61] = Started ?s'"
    by (rule poll_loaded_start)
  have polls: "run_polls x86_host 2 ?s = 1"
    by (simp add: numeral_2_eq_2 poll_loaded_run)
  have run: "run x86_host 2 ?s = Halted ?end"
    by (simp add: numeral_2_eq_2 poll_loaded_run)
  have c: "\<forall>i < run_polls x86_host 2 ?s. (\<lambda>n. n = 0) i = (\<lambda>n :: nat. True) i"
    unfolding polls by simp
  have d: "\<not> left_memory (run x86_host 2 ?s)" unfolding run by simp
  have obs: "is_halted (run x86_host 2 ?s)" "reg (state_of (run x86_host 2 ?s)) R_R0 = 0x8000"
    "memory (state_of (run x86_host 2 ?s)) MR_KBDR = 0x61"
    "stdin (state_of (run x86_host 2 ?s)) = []"
    "stdout (state_of (run x86_host 2 ?s)) = [0x48, 0x41, 0x4c, 0x54]"
    unfolding run
    by (simp_all add: fputs_def set_reg_def update_flags_def init_vm_def reg_names MR_KBSR_def
        MR_KBDR_def)
  from same_inputs_same_run [OF a b c d] obs a b polls show ?thesis by simp
qed
text \<open>
  Claim C8 as stated, with the image and the input characters alone, fails: the keyboard
  poll has a zero timeout, so its answer depends on whether the character has arrived
  yet.  \<open>poll_image\<close> reads the keyboard status register once and halts.  With the same
  input, the letter a, a run whose poll finds the key ends with R0 = x8000 and the letter
  in the data cell, and a run whose poll comes too early ends with R0 = 0 and the data
  cell untouched.
\<close>

lemma poll_run:
  "step x86_host (init_vm poll_image (\<lambda>n. True) [0x61]) =
     Running (update_flags R_R0 (set_reg R_R0 0x8000
       ((set_reg R_PC 0x3001 (init_vm poll_image (\<lambda>n. True) [0x61]))
          \<lparr>memory := poll_image (MR_KBSR := 0x8000, MR_KBDR := 0x61), stdin := []\<rparr>)))"
  "step x86_host (update_flags R_R0 (set_reg R_R0 0x8000
       ((set_reg R_PC 0x3001 (init_vm poll_image (\<lambda>n. True) [0x61]))
          \<lparr>memory := poll_image (MR_KBSR := 0x8000, MR_KBDR := 0x61), stdin := []\<rparr>))) =
     Halted (fputs ''HALT'' (set_reg R_R7 0x3002 (set_reg R_PC 0x3002 (update_flags R_R0 (set_reg R_R0 0x8000
       ((set_reg R_PC 0x3001 (init_vm poll_image (\<lambda>n. True) [0x61]))
          \<lparr>memory := poll_image (MR_KBSR := 0x8000, MR_KBDR := 0x61), stdin := []\<rparr>))))))"
  "step x86_host (init_vm poll_image (\<lambda>n. False) [0x61]) =
     Running (update_flags R_R0 (set_reg R_R0 0
       ((set_reg R_PC 0x3001 (init_vm poll_image (\<lambda>n. False) [0x61]))
          \<lparr>memory := poll_image (MR_KBSR := 0)\<rparr>)))"
  "step x86_host (update_flags R_R0 (set_reg R_R0 0
       ((set_reg R_PC 0x3001 (init_vm poll_image (\<lambda>n. False) [0x61]))
          \<lparr>memory := poll_image (MR_KBSR := 0)\<rparr>))) =
     Halted (fputs ''HALT'' (set_reg R_R7 0x3002 (set_reg R_PC 0x3002 (update_flags R_R0 (set_reg R_R0 0
       ((set_reg R_PC 0x3001 (init_vm poll_image (\<lambda>n. False) [0x61]))
          \<lparr>memory := poll_image (MR_KBSR := 0)\<rparr>))))))"
  by (simp_all add: run_defs poll_image_def fun_eq_iff)

theorem poll_timing_counterexample:
  "memory (init_vm poll_image (\<lambda>n. True) [0x61]) = memory (init_vm poll_image (\<lambda>n. False) [0x61]) \<and>
   reg (init_vm poll_image (\<lambda>n. True) [0x61]) = reg (init_vm poll_image (\<lambda>n. False) [0x61]) \<and>
   stdin (init_vm poll_image (\<lambda>n. True) [0x61]) = stdin (init_vm poll_image (\<lambda>n. False) [0x61]) \<and>
   is_halted (run x86_host 2 (init_vm poll_image (\<lambda>n. True) [0x61])) \<and>
   is_halted (run x86_host 2 (init_vm poll_image (\<lambda>n. False) [0x61])) \<and>
   reg (state_of (run x86_host 2 (init_vm poll_image (\<lambda>n. True) [0x61]))) R_R0 = 0x8000 \<and>
   reg (state_of (run x86_host 2 (init_vm poll_image (\<lambda>n. False) [0x61]))) R_R0 = 0 \<and>
   memory (state_of (run x86_host 2 (init_vm poll_image (\<lambda>n. True) [0x61]))) MR_KBDR = 0x61 \<and>
   memory (state_of (run x86_host 2 (init_vm poll_image (\<lambda>n. False) [0x61]))) MR_KBDR = 0"
proof -
  have a: "run x86_host 2 (init_vm poll_image (\<lambda>n. True) [0x61]) =
     Halted (fputs ''HALT'' (set_reg R_R7 0x3002 (set_reg R_PC 0x3002 (update_flags R_R0 (set_reg R_R0 0x8000
       ((set_reg R_PC 0x3001 (init_vm poll_image (\<lambda>n. True) [0x61]))
          \<lparr>memory := poll_image (MR_KBSR := 0x8000, MR_KBDR := 0x61), stdin := []\<rparr>))))))"
    by (simp add: numeral_2_eq_2 poll_run)
  have b: "run x86_host 2 (init_vm poll_image (\<lambda>n. False) [0x61]) =
     Halted (fputs ''HALT'' (set_reg R_R7 0x3002 (set_reg R_PC 0x3002 (update_flags R_R0 (set_reg R_R0 0
       ((set_reg R_PC 0x3001 (init_vm poll_image (\<lambda>n. False) [0x61]))
          \<lparr>memory := poll_image (MR_KBSR := 0)\<rparr>))))))"
    by (simp add: numeral_2_eq_2 poll_run)
  show ?thesis
    unfolding a b
    by (simp add: fputs_def set_reg_def update_flags_def init_vm_def reg_names MR_KBSR_def
        MR_KBDR_def poll_image_def)
qed

subsection \<open>Undefined trap vectors\<close>

text \<open>
  Claim C9.  A TRAP whose vector is none of x20 to x25 does not fault and does not halt:
  the machine keeps running, and the state after the cycle is the state before it with
  the program counter advanced by one and that advanced counter stored in R7.  Memory,
  the other registers, the condition flag, the input and the output are unchanged.
\<close>

theorem undefined_trap_vector:
  assumes f: "fetch s = (instr, s1)"
    and op: "drop_bit 12 instr = OP_TRAP"
    and v: "instr AND 0xff \<notin> {TRAP_GETC, TRAP_OUT, TRAP_PUTS, TRAP_IN, TRAP_PUTSP, TRAP_HALT}"
  shows "step pl s = Running (s\<lparr>reg := (reg s)(R_PC := reg s R_PC + 1, R_R7 := reg s R_PC + 1)\<rparr>)"
proof -
  from f op have s1: "s1 = set_reg R_PC (reg s R_PC + 1) s" by (rule fetch_trap_quiet)
  from v have "op_trap pl instr s1 = Running (set_reg R_R7 (reg s1 R_PC) s1)"
    by (simp add: op_trap_def Let_def)
  with op have "execute pl instr s1 = Running (set_reg R_R7 (reg s1 R_PC) s1)"
    by (simp add: execute_def opcode_defs)
  with f show ?thesis by (simp add: step_def s1 set_reg_def)
qed

theorem undefined_trap_vector_witness:
  "step x86_host (init_vm trap_image (\<lambda>n. False) []) =
     Running ((init_vm trap_image (\<lambda>n. False) [])\<lparr>reg :=
        (reg (init_vm trap_image (\<lambda>n. False) []))(R_PC := 0x3001, R_R7 := 0x3001)\<rparr>)"
proof -
  let ?s = "init_vm trap_image (\<lambda>n. False) []"
  have f: "fetch ?s = (0xf026, set_reg R_PC 0x3001 ?s)"
    by (simp add: machine_defs reg_names trap_image_def)
  have op: "drop_bit 12 (0xf026 :: u16) = OP_TRAP" by (simp add: opcode_defs)
  have v: "(0xf026 :: u16) AND 0xff \<notin> {TRAP_GETC, TRAP_OUT, TRAP_PUTS, TRAP_IN, TRAP_PUTSP, TRAP_HALT}"
    by (simp add: trap_defs)
  have pc: "reg ?s R_PC + 1 = 0x3001" by (simp add: init_vm_def reg_names PC_START_def)
  from undefined_trap_vector [OF f op v, of x86_host] show ?thesis
    unfolding pc .
qed

subsection \<open>String output\<close>

lemma puts_loop_scan:
  assumes "c \<le> z" and "z < MEMORY_MAX" and "memory s (word_of_nat z) = 0"
    and "\<forall>i. c \<le> i \<and> i < z \<longrightarrow> memory s (word_of_nat i) \<noteq> 0"
  shows "puts_loop c s =
     Running (s\<lparr>stdout := stdout s @ map (\<lambda>i. ucast (memory s (word_of_nat i))) [c..<z]\<rparr>)"
  using assms
proof (induction "z - c" arbitrary: c s)
  case 0
  then have "c = z" by simp
  with 0 show ?case by (subst puts_loop.simps) simp
next
  case (Suc k)
  then have lt: "c < z" by simp
  with Suc.prems have nz: "memory s (word_of_nat c) \<noteq> 0" and inb: "\<not> MEMORY_MAX \<le> c"
    by auto
  let ?s = "fputc (ucast (memory s (word_of_nat c))) s"
  have "puts_loop (Suc c) ?s =
     Running (?s\<lparr>stdout := stdout ?s @ map (\<lambda>i. ucast (memory ?s (word_of_nat i))) [Suc c..<z]\<rparr>)"
    using Suc.hyps(2) Suc.prems lt
    by (intro Suc.hyps(1)) (auto simp add: fputc_simps)
  moreover have "puts_loop c s = puts_loop (Suc c) ?s"
    using nz inb by (subst puts_loop.simps) simp
  ultimately show ?case
    using lt by (simp add: fputc_def upt_conv_Cons)
qed

lemma putsp_loop_scan:
  assumes "c \<le> z" and "z < MEMORY_MAX" and "memory s (word_of_nat z) = 0"
    and "\<forall>i. c \<le> i \<and> i < z \<longrightarrow> memory s (word_of_nat i) \<noteq> 0"
  shows "putsp_loop c s =
     Running (s\<lparr>stdout := stdout s @ concat (map (\<lambda>i.
        ucast (memory s (word_of_nat i) AND 0xff) #
        (if (ucast (drop_bit 8 (memory s (word_of_nat i))) :: u8) \<noteq> 0
         then [ucast (drop_bit 8 (memory s (word_of_nat i)))] else [])) [c..<z])\<rparr>)"
  using assms
proof (induction "z - c" arbitrary: c s)
  case 0
  then have "c = z" by simp
  with 0 show ?case by (subst putsp_loop.simps) simp
next
  case (Suc k)
  then have lt: "c < z" by simp
  with Suc.prems have nz: "memory s (word_of_nat c) \<noteq> 0" and inb: "\<not> MEMORY_MAX \<le> c"
    by auto
  define c2 where "c2 = (ucast (drop_bit 8 (memory s (word_of_nat c))) :: u8)"
  define s2 where "s2 = s\<lparr>stdout := stdout s @
      (ucast (memory s (word_of_nat c) AND 0xff) # (if c2 \<noteq> 0 then [c2] else []))\<rparr>"
  have mem: "memory s2 = memory s" by (simp add: s2_def)
  have out: "stdout s2 = stdout s @
      (ucast (memory s (word_of_nat c) AND 0xff) # (if c2 \<noteq> 0 then [c2] else []))"
    by (simp add: s2_def)
  have upd: "\<And>x. s2\<lparr>stdout := x\<rparr> = s\<lparr>stdout := x\<rparr>" by (simp add: s2_def)
  have "putsp_loop (Suc c) s2 =
     Running (s2\<lparr>stdout := stdout s2 @ concat (map (\<lambda>i.
        ucast (memory s2 (word_of_nat i) AND 0xff) #
        (if (ucast (drop_bit 8 (memory s2 (word_of_nat i))) :: u8) \<noteq> 0
         then [ucast (drop_bit 8 (memory s2 (word_of_nat i)))] else [])) [Suc c..<z])\<rparr>)"
    using Suc.hyps(2) Suc.prems lt
    by (intro Suc.hyps(1)) (auto simp add: mem)
  then have rest: "putsp_loop (Suc c) s2 =
     Running (s\<lparr>stdout := (stdout s @
        (ucast (memory s (word_of_nat c) AND 0xff) # (if c2 \<noteq> 0 then [c2] else []))) @
        concat (map (\<lambda>i.
        ucast (memory s (word_of_nat i) AND 0xff) #
        (if (ucast (drop_bit 8 (memory s (word_of_nat i))) :: u8) \<noteq> 0
         then [ucast (drop_bit 8 (memory s (word_of_nat i)))] else [])) [Suc c..<z])\<rparr>)"
    by (simp only: mem out upd)
  have "putsp_loop c s = putsp_loop (Suc c) s2"
    using nz inb
    by (subst putsp_loop.simps) (simp add: Let_def s2_def c2_def fputc_def)
  with rest show ?case
    using lt by (simp add: upt_conv_Cons c2_def)
qed

lemma first_zero:
  assumes "c \<le> k" and "k < MEMORY_MAX" and "m (word_of_nat k) = (0 :: u16)"
  shows "\<exists>z. c \<le> z \<and> z < MEMORY_MAX \<and> m (word_of_nat z) = 0 \<and>
              (\<forall>i. c \<le> i \<and> i < z \<longrightarrow> m (word_of_nat i) \<noteq> 0)"
  using assms
proof (induction k rule: less_induct)
  case (less k)
  show ?case
  proof (cases "\<forall>i. c \<le> i \<and> i < k \<longrightarrow> m (word_of_nat i) \<noteq> 0")
    case True
    with less.prems show ?thesis by (intro exI [of _ k]) simp
  next
    case False
    then obtain i where i: "c \<le> i" "i < k" "m (word_of_nat i) = 0" by blast
    from i(2) less.prems(2) have "i < MEMORY_MAX" by simp
    with i show ?thesis by (intro less.IH [of i])
  qed
qed

text \<open>
  Claim C10.  Let some cell at an index from R0 up to 65535 hold zero.  Then there is a
  first such index \<open>z\<close>; the PUTS trap keeps the machine running (it never reads outside
  the 65536 cells) and appends to the output the low byte of each cell from R0 up to, not
  including, \<open>z\<close>, in order; the PUTSP trap does the same with, for each cell, the low
  byte followed by the high byte when that is not zero.  Nothing else changes but the
  program counter and R7.
\<close>

theorem string_traps_scan:
  assumes f: "fetch s = (instr, s1)"
    and op: "drop_bit 12 instr = OP_TRAP"
    and zero: "\<exists>k. unat (reg s R_R0) \<le> k \<and> k < MEMORY_MAX \<and> memory s (word_of_nat k) = 0"
  shows "\<exists>z. unat (reg s R_R0) \<le> z \<and> z < MEMORY_MAX \<and> memory s (word_of_nat z) = 0 \<and>
     (\<forall>i. unat (reg s R_R0) \<le> i \<and> i < z \<longrightarrow> memory s (word_of_nat i) \<noteq> 0) \<and>
     (instr AND 0xff = TRAP_PUTS \<longrightarrow>
        step pl s = Running (s\<lparr>
          reg := (reg s)(R_PC := reg s R_PC + 1, R_R7 := reg s R_PC + 1),
          stdout := stdout s @
            map (\<lambda>i. ucast (memory s (word_of_nat i))) [unat (reg s R_R0)..<z]\<rparr>)) \<and>
     (instr AND 0xff = TRAP_PUTSP \<longrightarrow>
        step pl s = Running (s\<lparr>
          reg := (reg s)(R_PC := reg s R_PC + 1, R_R7 := reg s R_PC + 1),
          stdout := stdout s @
            concat (map (\<lambda>i. ucast (memory s (word_of_nat i) AND 0xff) #
               (if (ucast (drop_bit 8 (memory s (word_of_nat i))) :: u8) \<noteq> 0
                then [ucast (drop_bit 8 (memory s (word_of_nat i)))] else []))
              [unat (reg s R_R0)..<z])\<rparr>))"
proof -
  from zero obtain k where k: "unat (reg s R_R0) \<le> k" "k < MEMORY_MAX" "memory s (word_of_nat k) = 0"
    by blast
  from first_zero [of "unat (reg s R_R0)" k "memory s"] k obtain z where z: "unat (reg s R_R0) \<le> z" "z < MEMORY_MAX"
    "memory s (word_of_nat z) = 0"
    "\<forall>i. unat (reg s R_R0) \<le> i \<and> i < z \<longrightarrow> memory s (word_of_nat i) \<noteq> 0"
    by blast
  from f op have s1: "s1 = set_reg R_PC (reg s R_PC + 1) s" by (rule fetch_trap_quiet)
  define s0 where "s0 = set_reg R_R7 (reg s1 R_PC) s1"
  have s0: "s0 = s\<lparr>reg := (reg s)(R_PC := reg s R_PC + 1, R_R7 := reg s R_PC + 1)\<rparr>"
    by (simp add: s0_def s1 set_reg_def)
  have r0: "reg s0 R_R0 = reg s R_R0" "memory s0 = memory s" "stdout s0 = stdout s"
    by (simp_all add: s0 R_R0_def R_R7_def R_PC_def)
  have st: "step pl s = op_trap pl instr s1"
    using f op by (simp add: step_def execute_def opcode_defs)
  have puts: "instr AND 0xff = TRAP_PUTS \<Longrightarrow> step pl s = puts_loop (unat (reg s R_R0)) s0"
    by (simp add: st op_trap_def Let_def s0_def [symmetric] r0 TRAP_GETC_def TRAP_OUT_def TRAP_PUTS_def)
  have putsp: "instr AND 0xff = TRAP_PUTSP \<Longrightarrow> step pl s = putsp_loop (unat (reg s R_R0)) s0"
    by (simp add: st op_trap_def Let_def s0_def [symmetric] r0 TRAP_GETC_def TRAP_OUT_def
        TRAP_PUTS_def TRAP_IN_def TRAP_PUTSP_def)
  have z0: "memory s0 (word_of_nat z) = 0"
    "\<forall>i. unat (reg s R_R0) \<le> i \<and> i < z \<longrightarrow> memory s0 (word_of_nat i) \<noteq> 0"
    using z by (simp_all add: r0)
  note a = puts_loop_scan [OF z(1,2) z0] putsp_loop_scan [OF z(1,2) z0]
  show ?thesis
    using z puts putsp a by (intro exI [of _ z]) (simp add: r0 s0 cong: if_cong)
qed

theorem string_traps_scan_witness:
  "step x86_host (init_vm puts_image (\<lambda>n. False) []) =
     Running ((init_vm puts_image (\<lambda>n. False) [])\<lparr>
        reg := (reg (init_vm puts_image (\<lambda>n. False) []))(R_PC := 0x3001, R_R7 := 0x3001),
        stdout := [0x48, 0x69]\<rparr>) \<and>
   step x86_host (init_vm putsp_image (\<lambda>n. False) []) =
     Running ((init_vm putsp_image (\<lambda>n. False) [])\<lparr>
        reg := (reg (init_vm putsp_image (\<lambda>n. False) []))(R_PC := 0x3001, R_R7 := 0x3001),
        stdout := [0x48, 0x69, 0x21]\<rparr>)"
proof
  let ?s = "init_vm puts_image (\<lambda>n. False) []"
  have f: "fetch ?s = (0xf022, set_reg R_PC 0x3001 ?s)"
    by (simp add: machine_defs reg_names puts_image_def)
  have op: "drop_bit 12 (0xf022 :: u16) = OP_TRAP" by (simp add: opcode_defs)
  have r0: "unat (reg ?s R_R0) = 0" by (simp add: init_vm_def reg_names)
  have cells: "memory ?s (word_of_nat 0) = 0x48" "memory ?s (word_of_nat 1) = 0x69"
    "memory ?s (word_of_nat 2) = 0"
    by (simp_all add: init_vm_def puts_image_def)
  have zero: "\<exists>k. unat (reg ?s R_R0) \<le> k \<and> k < MEMORY_MAX \<and> memory ?s (word_of_nat k) = 0"
    unfolding r0 using cells(3) by (intro exI [of _ 2]) (simp add: MEMORY_MAX_def)
  from string_traps_scan [OF f op zero, of x86_host]
  obtain z where z: "memory ?s (word_of_nat z) = 0"
    and first: "\<forall>i. unat (reg ?s R_R0) \<le> i \<and> i < z \<longrightarrow> memory ?s (word_of_nat i) \<noteq> 0"
    and st: "(0xf022 :: u16) AND 0xff = TRAP_PUTS \<longrightarrow>
        step x86_host ?s = Running (?s\<lparr>
          reg := (reg ?s)(R_PC := reg ?s R_PC + 1, R_R7 := reg ?s R_PC + 1),
          stdout := stdout ?s @
            map (\<lambda>i. ucast (memory ?s (word_of_nat i))) [unat (reg ?s R_R0)..<z]\<rparr>)"
    by blast
  have "\<not> 2 < z" using first cells(3) unfolding r0 by auto
  moreover have "z \<noteq> 0"
  proof
    assume "z = 0"
    with z cells(1) show False by simp
  qed
  moreover have "z \<noteq> 1"
  proof
    assume "z = 1"
    with z cells(2) show False by simp
  qed
  ultimately have z2: "z = Suc (Suc 0)" by arith
  have v: "(0xf022 :: u16) AND 0xff = TRAP_PUTS" by (simp add: TRAP_PUTS_def)
  have pc: "reg ?s R_PC + 1 = 0x3001" by (simp add: init_vm_def reg_names PC_START_def)
  have out: "stdout ?s = []" by (simp add: init_vm_def)
  have chars: "map (\<lambda>i. (ucast (memory ?s (word_of_nat i)) :: u8)) [0..<Suc (Suc 0)] = [0x48, 0x69]"
    using cells by simp
  from st v show "step x86_host ?s =
     Running (?s\<lparr>reg := (reg ?s)(R_PC := 0x3001, R_R7 := 0x3001), stdout := [0x48, 0x69]\<rparr>)"
    unfolding r0 z2 chars pc out by simp
next
  let ?s = "init_vm putsp_image (\<lambda>n. False) []"
  have f: "fetch ?s = (0xf024, set_reg R_PC 0x3001 ?s)"
    by (simp add: machine_defs reg_names putsp_image_def)
  have op: "drop_bit 12 (0xf024 :: u16) = OP_TRAP" by (simp add: opcode_defs)
  have r0: "unat (reg ?s R_R0) = 0" by (simp add: init_vm_def reg_names)
  have cells: "memory ?s (word_of_nat 0) = 0x6948" "memory ?s (word_of_nat 1) = 0x0021"
    "memory ?s (word_of_nat 2) = 0"
    by (simp_all add: init_vm_def putsp_image_def)
  have zero: "\<exists>k. unat (reg ?s R_R0) \<le> k \<and> k < MEMORY_MAX \<and> memory ?s (word_of_nat k) = 0"
    unfolding r0 using cells(3) by (intro exI [of _ 2]) (simp add: MEMORY_MAX_def)
  from string_traps_scan [OF f op zero, of x86_host]
  obtain z where z: "memory ?s (word_of_nat z) = 0"
    and first: "\<forall>i. unat (reg ?s R_R0) \<le> i \<and> i < z \<longrightarrow> memory ?s (word_of_nat i) \<noteq> 0"
    and st: "(0xf024 :: u16) AND 0xff = TRAP_PUTSP \<longrightarrow>
        step x86_host ?s = Running (?s\<lparr>
          reg := (reg ?s)(R_PC := reg ?s R_PC + 1, R_R7 := reg ?s R_PC + 1),
          stdout := stdout ?s @
            concat (map (\<lambda>i. ucast (memory ?s (word_of_nat i) AND 0xff) #
               (if (ucast (drop_bit 8 (memory ?s (word_of_nat i))) :: u8) \<noteq> 0
                then [ucast (drop_bit 8 (memory ?s (word_of_nat i)))] else []))
              [unat (reg ?s R_R0)..<z])\<rparr>)"
    by blast
  have "\<not> 2 < z" using first cells(3) unfolding r0 by auto
  moreover have "z \<noteq> 0"
  proof
    assume "z = 0"
    with z cells(1) show False by simp
  qed
  moreover have "z \<noteq> 1"
  proof
    assume "z = 1"
    with z cells(2) show False by simp
  qed
  ultimately have z2: "z = Suc (Suc 0)" by arith
  have v: "(0xf024 :: u16) AND 0xff = TRAP_PUTSP" by (simp add: TRAP_PUTSP_def)
  have pc: "reg ?s R_PC + 1 = 0x3001" by (simp add: init_vm_def reg_names PC_START_def)
  have out: "stdout ?s = []" by (simp add: init_vm_def)
  have chars: "concat (map (\<lambda>i. ucast (memory ?s (word_of_nat i) AND 0xff) #
               (if (ucast (drop_bit 8 (memory ?s (word_of_nat i))) :: u8) \<noteq> 0
                then [ucast (drop_bit 8 (memory ?s (word_of_nat i)))] else []))
              [0..<Suc (Suc 0)]) = [0x48, 0x69, 0x21 :: u8]"
    using cells by simp
  from st v show "step x86_host ?s =
     Running (?s\<lparr>reg := (reg ?s)(R_PC := 0x3001, R_R7 := 0x3001), stdout := [0x48, 0x69, 0x21]\<rparr>)"
    unfolding r0 z2 chars pc out by simp
qed

end
